theory Spec2Isabelle
  imports Main
begin

section \<open>Transaction reconciliation: data model\<close>

text \<open>
  The embedding follows the route module that holds
  \<^verbatim>\<open>processTransactionsForCategorization\<close> and the \<^verbatim>\<open>POST /categorize\<close> handler.

  A provider transaction is a JavaScript object. The engine inspects two of its fields,
  \<^verbatim>\<open>tx.transaction_id\<close> and \<^verbatim>\<open>tx.personal_finance_category?.primary\<close>, and stores
  \<^verbatim>\<open>JSON.stringify(tx)\<close>. Both inspected fields may be missing (\<open>None\<close>) and are
  strings when present; the serialisation is carried as an opaque string.
\<close>

type_synonym user_id = int

record txn =
  transaction_id :: "string option"
  pfc_primary :: "string option"
  raw_json :: string

text \<open>
  Table \<^verbatim>\<open>transaction_categorizations\<close>: \<^verbatim>\<open>transaction_id VARCHAR(255) NOT NULL\<close>,
  \<^verbatim>\<open>category VARCHAR(100) NOT NULL\<close>, \<^verbatim>\<open>plaid_data JSONB\<close> (nullable),
  \<^verbatim>\<open>created_at TIMESTAMP DEFAULT CURRENT_TIMESTAMP\<close>, \<^verbatim>\<open>UNIQUE(user_id, transaction_id)\<close>.
\<close>

record categorization =
  c_user_id :: user_id
  c_transaction_id :: string
  c_category :: string
  c_plaid_data :: "string option"
  c_created_at :: nat

text \<open>
  Modelled from the spec: the \<^verbatim>\<open>CREATE TABLE\<close> of \<^verbatim>\<open>manual_review_transactions\<close> is
  missing from the source. The columns are those the \<^verbatim>\<open>INSERT\<close> of the source names, and
  the unique key \<open>(user_id, transaction_id)\<close> is the one its \<^verbatim>\<open>ON CONFLICT\<close> clause names.
  The specification gives a ManualReviewEntry the same key as a Categorization, a
  \<open>transaction_id\<close> unique per user; the column is taken to be \<^verbatim>\<open>NOT NULL\<close> like the one
  of \<^verbatim>\<open>transaction_categorizations\<close>, so a stored entry always has an id.
\<close>

record manual_review =
  m_user_id :: user_id
  m_transaction_id :: string
  m_transaction_data :: string
  m_created_at :: nat

record db =
  transaction_categorizations :: "categorization list"
  manual_review_transactions :: "manual_review list"

definition cat_key :: "categorization \<Rightarrow> user_id \<times> string" where
  "cat_key r = (c_user_id r, c_transaction_id r)"

definition review_key :: "manual_review \<Rightarrow> user_id \<times> string" where
  "review_key r = (m_user_id r, m_transaction_id r)"

section \<open>Rule table and display category\<close>

definition AUTO_CATEGORIZE_PLAID_CATEGORIES :: "string list" where
  "AUTO_CATEGORIZE_PLAID_CATEGORIES =
     [''INCOME'', ''PAYROLL'', ''DEPOSIT'', ''TRANSFER_IN'', ''TRANSFER_OUT'', ''BANK_FEES'',
      ''ATM_FEES'', ''INTEREST_EARNED'', ''INTEREST_CHARGED'', ''LOAN_PAYMENTS'',
      ''CREDIT_CARD_PAYMENT'', ''INSURANCE'', ''TAXES'', ''UTILITIES'', ''RENT_AND_UTILITIES'',
      ''MORTGAGE_AND_RENT'']"

text \<open>
  Case conversion of one character. JavaScript converts by Unicode; the model converts the
  ASCII letters and leaves every other character alone, which is what JavaScript does on the
  ASCII strings of the rule table, the only strings the clean-up is applied to.
\<close>

definition upper_letters :: string where
  "upper_letters = ''ABCDEFGHIJKLMNOPQRSTUVWXYZ''"

definition lower_letters :: string where
  "lower_letters = ''abcdefghijklmnopqrstuvwxyz''"

definition toLowerChar :: "char \<Rightarrow> char" where
  "toLowerChar c = (case map_of (zip upper_letters lower_letters) c of Some l \<Rightarrow> l | None \<Rightarrow> c)"

definition toUpperChar :: "char \<Rightarrow> char" where
  "toUpperChar c = (case map_of (zip lower_letters upper_letters) c of Some u \<Rightarrow> u | None \<Rightarrow> c)"

text \<open>\<^verbatim>\<open>s.replace(/_/g, ' ')\<close>\<close>

definition replace_underscores :: "string \<Rightarrow> string" where
  "replace_underscores s = map (\<lambda>c. if c = CHR ''_'' then CHR '' '' else c) s"

text \<open>\<^verbatim>\<open>s.toLowerCase()\<close>\<close>

definition toLowerCase :: "string \<Rightarrow> string" where
  "toLowerCase s = map toLowerChar s"

text \<open>
  \<^verbatim>\<open>s.split(' ')\<close>: the pieces between the separators, empty pieces kept; the empty
  string splits into one empty piece.
\<close>

fun split_on :: "char \<Rightarrow> string \<Rightarrow> string list" where
  "split_on sep [] = [[]]"
| "split_on sep (c # cs) =
     (if c = sep then [] # split_on sep cs
      else (case split_on sep cs of
              [] \<Rightarrow> [[c]]
            | w # ws \<Rightarrow> (c # w) # ws))"

text \<open>\<^verbatim>\<open>word.charAt(0).toUpperCase() + word.slice(1)\<close>\<close>

fun capitalize :: "string \<Rightarrow> string" where
  "capitalize [] = []"
| "capitalize (c # cs) = toUpperChar c # cs"

text \<open>\<^verbatim>\<open>words.join(' ')\<close>\<close>

fun join_with :: "char \<Rightarrow> string list \<Rightarrow> string" where
  "join_with sep [] = []"
| "join_with sep [w] = w"
| "join_with sep (w # v # ws) = w @ sep # join_with sep (v # ws)"

definition cleanCategory :: "string \<Rightarrow> string" where
  "cleanCategory plaidCategory =
     join_with (CHR '' '')
       (map capitalize (split_on (CHR '' '') (toLowerCase (replace_underscores plaidCategory))))"

text \<open>
  The display category in the words of the specification: underscores become spaces, every
  letter is lowercased, and the first character of each word (a maximal run between spaces)
  is uppercased. One pass over the string; the flag says that a word starts here.
\<close>

fun title_case_from :: "bool \<Rightarrow> string \<Rightarrow> string" where
  "title_case_from start [] = []"
| "title_case_from start (c # cs) =
     (let c' = toLowerChar (if c = CHR ''_'' then CHR '' '' else c) in
      if c' = CHR '' '' then CHR '' '' # title_case_from True cs
      else (if start then toUpperChar c' else c') # title_case_from False cs)"

definition display_category_spec :: "string \<Rightarrow> string" where
  "display_category_spec code = title_case_from True code"

section \<open>Classifier\<close>

datatype decision = Auto string | Manual

text \<open>
  The branch of the loop body:
  \<^verbatim>\<open>if (plaidCategory && AUTO_CATEGORIZE_PLAID_CATEGORIES.includes(plaidCategory))\<close>.
  A missing code and the empty string are falsy.
\<close>

definition classify :: "txn \<Rightarrow> decision" where
  "classify tx =
     (case pfc_primary tx of
        None \<Rightarrow> Manual
      | Some plaidCategory \<Rightarrow>
          if plaidCategory \<noteq> [] \<and> plaidCategory \<in> set AUTO_CATEGORIZE_PLAID_CATEGORIES
          then Auto (cleanCategory plaidCategory)
          else Manual)"

definition is_auto :: "txn \<Rightarrow> bool" where
  "is_auto tx = (classify tx \<noteq> Manual)"

text \<open>The two per-character steps of the clean-up in one: underscore to space, then lowercase.\<close>

definition norm_char :: "char \<Rightarrow> char" where
  "norm_char c = toLowerChar (if c = CHR ''_'' then CHR '' '' else c)"

section \<open>Persistence layer\<close>

text \<open>
  The SQL statements the two operations send through \<^verbatim>\<open>pool.query\<close>, with their
  parameters. A missing JavaScript value is sent as \<^verbatim>\<open>NULL\<close> (\<open>None\<close>).
\<close>

datatype stmt =
    InsertCategorization user_id "string option" string "string option"
  | InsertManualReview user_id "string option" string
  | UpsertCategorization user_id "string option" "string option" "string option"
  | DeleteManualReview user_id "string option"

datatype db_error = NotNullViolation | QueryRejected

text \<open>
  Executing one statement at time \<open>now\<close>. The parameter \<open>rejects\<close> says which statements
  the persistence layer refuses for a reason outside the model (connection lost, value too
  long, a simulated failure); a refused statement changes nothing.

  \<^item> \<^verbatim>\<open>INSERT ... ON CONFLICT (user_id, transaction_id) DO NOTHING\<close> appends a row unless
    a row with the key exists.
  \<^item> \<^verbatim>\<open>INSERT ... ON CONFLICT (user_id, transaction_id) DO UPDATE SET category = $3,
    plaid_data = $4, created_at = CURRENT_TIMESTAMP\<close> rewrites the row with the key, or
    appends one.
  \<^item> \<^verbatim>\<open>DELETE FROM manual_review_transactions WHERE user_id = $1 AND transaction_id = $2\<close>
    removes the rows with the key; a \<^verbatim>\<open>NULL\<close> id compares equal to nothing.
  \<^item> A \<^verbatim>\<open>NULL\<close> in a \<^verbatim>\<open>NOT NULL\<close> column is refused.

  The \<^verbatim>\<open>NOT NULL\<close> of the id column is declared in the source for
  \<^verbatim>\<open>transaction_categorizations\<close> and taken from the model of \<open>manual_review\<close> above
  for \<^verbatim>\<open>manual_review_transactions\<close>.
\<close>

text \<open>
  \<^verbatim>\<open>DO UPDATE SET category = $3, plaid_data = $4, created_at = CURRENT_TIMESTAMP\<close> on the
  row of the conflicting key; every other row is left alone.
\<close>

definition overwrite ::
  "string \<Rightarrow> string option \<Rightarrow> nat \<Rightarrow> user_id \<times> string \<Rightarrow> categorization \<Rightarrow> categorization"
where
  "overwrite c data now k row =
     (if cat_key row = k then row\<lparr>c_category := c, c_plaid_data := data, c_created_at := now\<rparr>
      else row)"

fun exec :: "(stmt \<Rightarrow> bool) \<Rightarrow> nat \<Rightarrow> stmt \<Rightarrow> db \<Rightarrow> db_error + db" where
  "exec rejects now (InsertCategorization u tid cat data) d =
     (if rejects (InsertCategorization u tid cat data) then Inl QueryRejected
      else case tid of
             None \<Rightarrow> Inl NotNullViolation
           | Some t \<Rightarrow>
               if (u, t) \<in> set (map cat_key (transaction_categorizations d)) then Inr d
               else Inr (d\<lparr>transaction_categorizations := transaction_categorizations d @
                         [\<lparr>c_user_id = u, c_transaction_id = t, c_category = cat,
                           c_plaid_data = data, c_created_at = now\<rparr>]\<rparr>))"
| "exec rejects now (InsertManualReview u tid data) d =
     (if rejects (InsertManualReview u tid data) then Inl QueryRejected
      else case tid of
             None \<Rightarrow> Inl NotNullViolation
           | Some t \<Rightarrow>
               if (u, t) \<in> set (map review_key (manual_review_transactions d)) then Inr d
               else Inr (d\<lparr>manual_review_transactions := manual_review_transactions d @
                         [\<lparr>m_user_id = u, m_transaction_id = t, m_transaction_data = data,
                           m_created_at = now\<rparr>]\<rparr>))"
| "exec rejects now (UpsertCategorization u tid cat data) d =
     (if rejects (UpsertCategorization u tid cat data) then Inl QueryRejected
      else case (tid, cat) of
             (Some t, Some c) \<Rightarrow>
               if (u, t) \<in> set (map cat_key (transaction_categorizations d))
               then Inr (d\<lparr>transaction_categorizations :=
                          map (overwrite c data now (u, t)) (transaction_categorizations d)\<rparr>)
               else Inr (d\<lparr>transaction_categorizations := transaction_categorizations d @
                         [\<lparr>c_user_id = u, c_transaction_id = t, c_category = c,
                           c_plaid_data = data, c_created_at = now\<rparr>]\<rparr>)
           | _ \<Rightarrow> Inl NotNullViolation)"
| "exec rejects now (DeleteManualReview u tid) d =
     (if rejects (DeleteManualReview u tid) then Inl QueryRejected
      else case tid of
             None \<Rightarrow> Inr d
           | Some t \<Rightarrow>
               Inr (d\<lparr>manual_review_transactions :=
                       filter (\<lambda>r. review_key r \<noteq> (u, t)) (manual_review_transactions d)\<rparr>))"

text \<open>
  \<^verbatim>\<open>await Promise.all(promises)\<close> over queries that were all dispatched when the promises
  were created: every query runs, a refused one leaves the tables as they are, and the await
  throws the first refusal. The queries run on pooled connections in no fixed order; the
  model runs them in dispatch order.
\<close>

fun promise_all :: "(stmt \<Rightarrow> bool) \<Rightarrow> nat \<Rightarrow> stmt list \<Rightarrow> db \<Rightarrow> db \<times> db_error option" where
  "promise_all rejects now [] d = (d, None)"
| "promise_all rejects now (s # ss) d =
     (case exec rejects now s d of
        Inl e \<Rightarrow> (fst (promise_all rejects now ss d), Some e)
      | Inr d' \<Rightarrow> promise_all rejects now ss d')"

section \<open>Ingestion\<close>

text \<open>
  \<^verbatim>\<open>new Set(rows.map(row => row.transaction_id))\<close> over
  \<^verbatim>\<open>SELECT transaction_id FROM ... WHERE user_id = $1\<close>, for each of the two tables.
\<close>

definition categorizedIds :: "db \<Rightarrow> user_id \<Rightarrow> string list" where
  "categorizedIds d userId =
     map c_transaction_id (filter (\<lambda>row. c_user_id row = userId) (transaction_categorizations d))"

definition manualReviewIds :: "db \<Rightarrow> user_id \<Rightarrow> string list" where
  "manualReviewIds d userId =
     map m_transaction_id (filter (\<lambda>row. m_user_id row = userId) (manual_review_transactions d))"

text \<open>\<^verbatim>\<open>ids.has(tx.transaction_id)\<close>: the sets hold strings, so a missing id is in neither.\<close>

definition has :: "string list \<Rightarrow> string option \<Rightarrow> bool" where
  "has ids tid = (case tid of None \<Rightarrow> False | Some t \<Rightarrow> t \<in> set ids)"

definition insert_categorization_for :: "user_id \<Rightarrow> txn \<Rightarrow> string \<Rightarrow> stmt" where
  "insert_categorization_for userId tx cleanCat =
     InsertCategorization userId (transaction_id tx) cleanCat (Some (raw_json tx))"

definition insert_manual_review_for :: "user_id \<Rightarrow> txn \<Rightarrow> stmt" where
  "insert_manual_review_for userId tx =
     InsertManualReview userId (transaction_id tx) (raw_json tx)"

text \<open>
  The \<^verbatim>\<open>for (const tx of transactions)\<close> loop. The accumulators are
  \<^verbatim>\<open>autoCategorizationPromises\<close> (each promise is the query it was created with) and
  \<^verbatim>\<open>manualReviewTransactions\<close>; \<^verbatim>\<open>push\<close> appends. The two id sets were read before the
  loop and are not refreshed inside it.
\<close>

fun classify_loop ::
  "string list \<Rightarrow> string list \<Rightarrow> user_id \<Rightarrow> txn list \<Rightarrow> stmt list \<times> txn list \<Rightarrow> stmt list \<times> txn list"
where
  "classify_loop cids mids userId [] acc = acc"
| "classify_loop cids mids userId (tx # txs) (autos, manuals) =
     (if has cids (transaction_id tx) \<or> has mids (transaction_id tx)
      then classify_loop cids mids userId txs (autos, manuals)
      else (case classify tx of
              Auto cleanCat \<Rightarrow>
                classify_loop cids mids userId txs
                  (autos @ [insert_categorization_for userId tx cleanCat], manuals)
            | Manual \<Rightarrow>
                classify_loop cids mids userId txs (autos, manuals @ [tx])))"

text \<open>
  \<^verbatim>\<open>processTransactionsForCategorization(transactions, userId)\<close> on the tables \<open>d\<close>:
  the tables afterwards, and either the error the call throws or
  \<open>(autoCount, manualCount)\<close>. The function has no \<^verbatim>\<open>try\<close>: a refusal thrown by the
  first \<^verbatim>\<open>Promise.all\<close> leaves the function before the manual-review queries are created.
  The two \<^verbatim>\<open>SELECT\<close>s that read the id sets are taken to succeed.
\<close>

definition processTransactionsForCategorization ::
  "(stmt \<Rightarrow> bool) \<Rightarrow> nat \<Rightarrow> txn list \<Rightarrow> user_id \<Rightarrow> db \<Rightarrow> db \<times> (db_error + nat \<times> nat)"
where
  "processTransactionsForCategorization rejects now transactions userId d =
     (if transactions = [] then (d, Inr (0, 0))
      else
        let (autoCategorizationPromises, manualReviewTransactions) =
              classify_loop (categorizedIds d userId) (manualReviewIds d userId) userId
                transactions ([], [])
        in case (if autoCategorizationPromises \<noteq> []
                 then promise_all rejects now autoCategorizationPromises d
                 else (d, None)) of
             (d1, Some e) \<Rightarrow> (d1, Inl e)
           | (d1, None) \<Rightarrow>
               (case (if manualReviewTransactions \<noteq> []
                      then promise_all rejects now
                             (map (insert_manual_review_for userId) manualReviewTransactions) d1
                      else (d1, None)) of
                  (d2, Some e) \<Rightarrow> (d2, Inl e)
                | (d2, None) \<Rightarrow>
                    (d2, Inr (length autoCategorizationPromises, length manualReviewTransactions))))"

section \<open>Explicit categorization\<close>

text \<open>
  The body of \<^verbatim>\<open>POST /categorize\<close>: the request carries \<^verbatim>\<open>transaction_id\<close>,
  \<^verbatim>\<open>category\<close> and \<^verbatim>\<open>plaid_data\<close>, each possibly missing. The upsert is awaited, then
  the delete; the first refusal leaves the \<^verbatim>\<open>try\<close> block and the handler answers 500.
\<close>

record categorize_request =
  req_transaction_id :: "string option"
  req_category :: "string option"
  req_plaid_data :: "string option"

definition categorize ::
  "(stmt \<Rightarrow> bool) \<Rightarrow> nat \<Rightarrow> user_id \<Rightarrow> categorize_request \<Rightarrow> db \<Rightarrow> db \<times> (db_error + unit)"
where
  "categorize rejects now userId req d =
     (case exec rejects now
             (UpsertCategorization userId (req_transaction_id req) (req_category req)
                (req_plaid_data req)) d of
        Inl e \<Rightarrow> (d, Inl e)
      | Inr d1 \<Rightarrow>
          (case exec rejects now (DeleteManualReview userId (req_transaction_id req)) d1 of
             Inl e \<Rightarrow> (d1, Inl e)
           | Inr d2 \<Rightarrow> (d2, Inr ())))"

section \<open>The dedup filter and the invariant, as the specification words them\<close>

text \<open>
  The subset of the batch whose \<open>transaction_id\<close> is present neither in the user's
  Categorization set nor in the user's ManualReviewEntry set.
\<close>

definition dedup_filter :: "db \<Rightarrow> user_id \<Rightarrow> txn list \<Rightarrow> txn list" where
  "dedup_filter d userId transactions =
     filter (\<lambda>tx. \<not> (case transaction_id tx of
                        None \<Rightarrow> False
                      | Some t \<Rightarrow> (userId, t) \<in> set (map cat_key (transaction_categorizations d))
                                \<or> (userId, t) \<in> set (map review_key (manual_review_transactions d))))
       transactions"

text \<open>
  No key twice within a table, and no key in both tables.
\<close>

definition steady_state :: "db \<Rightarrow> bool" where
  "steady_state d =
     (distinct (map cat_key (transaction_categorizations d))
      \<and> distinct (map review_key (manual_review_transactions d))
      \<and> set (map cat_key (transaction_categorizations d))
          \<inter> set (map review_key (manual_review_transactions d)) = {})"

definition unique_keys :: "db \<Rightarrow> bool" where
  "unique_keys d =
     (distinct (map cat_key (transaction_categorizations d))
      \<and> distinct (map review_key (manual_review_transactions d)))"

text \<open>A statement that the persistence layer refuses whatever the tables hold.\<close>

definition stmt_fails :: "(stmt \<Rightarrow> bool) \<Rightarrow> stmt \<Rightarrow> bool" where
  "stmt_fails rejects s =
     (rejects s \<or>
      (case s of
         InsertCategorization u tid cat data \<Rightarrow> tid = None
       | InsertManualReview u tid data \<Rightarrow> tid = None
       | UpsertCategorization u tid cat data \<Rightarrow> tid = None \<or> cat = None
       | DeleteManualReview u tid \<Rightarrow> False))"

text \<open>The keys held by each table.\<close>

abbreviation cat_keys :: "db \<Rightarrow> (user_id \<times> string) set" where
  "cat_keys d \<equiv> set (map cat_key (transaction_categorizations d))"

abbreviation review_keys :: "db \<Rightarrow> (user_id \<times> string) set" where
  "review_keys d \<equiv> set (map review_key (manual_review_transactions d))"

text \<open>The query the ingestion step creates for a transaction that passed the skip test.\<close>

definition write_for :: "user_id \<Rightarrow> txn \<Rightarrow> stmt" where
  "write_for userId tx =
     (case classify tx of
        Auto cleanCat \<Rightarrow> insert_categorization_for userId tx cleanCat
      | Manual \<Rightarrow> insert_manual_review_for userId tx)"

fun is_cat_insert :: "stmt \<Rightarrow> bool" where
  "is_cat_insert (InsertCategorization u tid cat data) = True"
| "is_cat_insert s = False"

fun is_review_insert :: "stmt \<Rightarrow> bool" where
  "is_review_insert (InsertManualReview u tid data) = True"
| "is_review_insert s = False"

text \<open>The insert that stores a given row.\<close>

definition insert_of_row :: "categorization \<Rightarrow> stmt" where
  "insert_of_row row =
     InsertCategorization (c_user_id row) (Some (c_transaction_id row)) (c_category row)
       (c_plaid_data row)"

definition insert_of_review_row :: "manual_review \<Rightarrow> stmt" where
  "insert_of_review_row row =
     InsertManualReview (m_user_id row) (Some (m_transaction_id row)) (m_transaction_data row)"

text \<open>The surviving transactions of each decision.\<close>

definition auto_survivors :: "db \<Rightarrow> user_id \<Rightarrow> txn list \<Rightarrow> txn list" where
  "auto_survivors d userId transactions = filter is_auto (dedup_filter d userId transactions)"

definition manual_survivors :: "db \<Rightarrow> user_id \<Rightarrow> txn list \<Rightarrow> txn list" where
  "manual_survivors d userId transactions =
     filter (\<lambda>tx. \<not> is_auto tx) (dedup_filter d userId transactions)"

text \<open>The tables after the first await, and after the second.\<close>

definition after_auto :: "(stmt \<Rightarrow> bool) \<Rightarrow> nat \<Rightarrow> txn list \<Rightarrow> user_id \<Rightarrow> db \<Rightarrow> db" where
  "after_auto rejects now transactions userId d =
     fst (promise_all rejects now (map (write_for userId) (auto_survivors d userId transactions)) d)"

definition after_manual :: "(stmt \<Rightarrow> bool) \<Rightarrow> nat \<Rightarrow> txn list \<Rightarrow> user_id \<Rightarrow> db \<Rightarrow> db" where
  "after_manual rejects now transactions userId d =
     fst (promise_all rejects now (map (write_for userId) (manual_survivors d userId transactions))
            (after_auto rejects now transactions userId d))"

section \<open>Example data\<close>

definition empty_db :: db where
  "empty_db = \<lparr>transaction_categorizations = [], manual_review_transactions = []\<rparr>"

definition no_rejects :: "stmt \<Rightarrow> bool" where
  "no_rejects s = False"

definition tx_income :: txn where
  "tx_income = \<lparr>transaction_id = Some ''t1'', pfc_primary = Some ''INCOME'', raw_json = ''{t1}''\<rparr>"

definition tx_transfer :: txn where
  "tx_transfer =
     \<lparr>transaction_id = Some ''t2'', pfc_primary = Some ''TRANSFER_IN'', raw_json = ''{t2}''\<rparr>"

definition tx_food :: txn where
  "tx_food =
     \<lparr>transaction_id = Some ''t3'', pfc_primary = Some ''FOOD_AND_DRINK'', raw_json = ''{t3}''\<rparr>"

definition tx_no_code :: txn where
  "tx_no_code = \<lparr>transaction_id = Some ''t4'', pfc_primary = None, raw_json = ''{t4}''\<rparr>"

definition tx_no_id :: txn where
  "tx_no_id = \<lparr>transaction_id = None, pfc_primary = Some ''INCOME'', raw_json = ''{?}''\<rparr>"

definition tx_food_t1 :: txn where
  "tx_food_t1 =
     \<lparr>transaction_id = Some ''t1'', pfc_primary = Some ''FOOD_AND_DRINK'', raw_json = ''{t1b}''\<rparr>"

text \<open>Tables in which user 1 already has a categorization of \<open>t1\<close>, made by hand.\<close>

definition db_t1_categorized :: db where
  "db_t1_categorized =
     \<lparr>transaction_categorizations =
        [\<lparr>c_user_id = 1, c_transaction_id = ''t1'', c_category = ''Salary'',
          c_plaid_data = Some ''{old}'', c_created_at = 3\<rparr>],
      manual_review_transactions = []\<rparr>"

text \<open>Tables in which \<open>t3\<close> of user 1 waits for manual review.\<close>

definition db_t3_pending :: db where
  "db_t3_pending =
     \<lparr>transaction_categorizations = [],
      manual_review_transactions =
        [\<lparr>m_user_id = 1, m_transaction_id = ''t3'', m_transaction_data = ''{t3}'',
          m_created_at = 3\<rparr>]\<rparr>"

text \<open>The request that resolves \<open>t3\<close>, and the tables after it at time 9.\<close>

definition req_t3 :: categorize_request where
  "req_t3 =
     \<lparr>req_transaction_id = Some ''t3'', req_category = Some ''Dining'',
      req_plaid_data = Some ''{t3}''\<rparr>"

definition db_t3_resolved :: db where
  "db_t3_resolved =
     \<lparr>transaction_categorizations =
        [\<lparr>c_user_id = 1, c_transaction_id = ''t3'', c_category = ''Dining'',
          c_plaid_data = Some ''{t3}'', c_created_at = 9\<rparr>],
      manual_review_transactions = []\<rparr>"

text \<open>A request that corrects the categorization of \<open>t1\<close>.\<close>

definition req_t1 :: categorize_request where
  "req_t1 =
     \<lparr>req_transaction_id = Some ''t1'', req_category = Some ''Bonus'',
      req_plaid_data = None\<rparr>"

text \<open>A persistence layer that refuses the categorization insert of \<open>t1\<close> and nothing else.\<close>

definition rejects_t1 :: "stmt \<Rightarrow> bool" where
  "rejects_t1 s = (s = InsertCategorization 1 (Some ''t1'') ''Income'' (Some ''{t1}''))"

text \<open>Tables that hold \<open>t1\<close> of user 1 both categorized and pending.\<close>

definition db_t1_both :: db where
  "db_t1_both =
     \<lparr>transaction_categorizations =
        [\<lparr>c_user_id = 1, c_transaction_id = ''t1'', c_category = ''Income'',
          c_plaid_data = Some ''{t1}'', c_created_at = 5\<rparr>],
      manual_review_transactions =
        [\<lparr>m_user_id = 1, m_transaction_id = ''t1'', m_transaction_data = ''{t1b}'',
          m_created_at = 5\<rparr>]\<rparr>"

text \<open>A persistence layer that refuses the manual-review delete of \<open>t3\<close> and nothing else.\<close>

definition rejects_delete_t3 :: "stmt \<Rightarrow> bool" where
  "rejects_delete_t3 s = (s = DeleteManualReview 1 (Some ''t3''))"

text \<open>Tables that hold \<open>t3\<close> of user 1 both categorized at time 9 and still pending.\<close>

definition db_t3_both :: db where
  "db_t3_both =
     \<lparr>transaction_categorizations =
        [\<lparr>c_user_id = 1, c_transaction_id = ''t3'', c_category = ''Dining'',
          c_plaid_data = Some ''{t3}'', c_created_at = 9\<rparr>],
      manual_review_transactions =
        [\<lparr>m_user_id = 1, m_transaction_id = ''t3'', m_transaction_data = ''{t3}'',
          m_created_at = 3\<rparr>]\<rparr>"

text \<open>
  A batch in which no \<open>transaction_id\<close> comes with both decisions; a batch with pairwise
  different ids is one.
\<close>

definition one_decision_per_id :: "txn list \<Rightarrow> bool" where
  "one_decision_per_id transactions =
     (\<forall>tx1\<in>set transactions. \<forall>tx2\<in>set transactions.
        transaction_id tx1 = transaction_id tx2 \<longrightarrow> is_auto tx1 = is_auto tx2)"

lemmas example_defs =
  empty_db_def no_rejects_def tx_income_def tx_transfer_def tx_food_def tx_no_code_def
  tx_no_id_def tx_food_t1_def db_t1_categorized_def db_t3_pending_def req_t3_def
  db_t3_resolved_def req_t1_def rejects_t1_def db_t1_both_def rejects_delete_t3_def
  db_t3_both_def

lemmas engine_defs =
  processTransactionsForCategorization_def categorize_def categorizedIds_def
  manualReviewIds_def has_def classify_def is_auto_def write_for_def
  insert_categorization_for_def insert_manual_review_for_def cat_key_def review_key_def
  dedup_filter_def AUTO_CATEGORIZE_PLAID_CATEGORIES_def stmt_fails_def

lemmas string_defs =
  cleanCategory_def display_category_spec_def toLowerCase_def replace_underscores_def
  toLowerChar_def toUpperChar_def upper_letters_def lower_letters_def

section \<open>The display category\<close>

lemma split_on_nonempty: "split_on sep s \<noteq> []"
  by (induction s) (auto split: list.splits)

lemma join_with_Cons_char: "join_with sep ((x # w) # ws) = x # join_with sep (w # ws)"
  by (cases ws) simp_all

lemma join_with_Nil_Cons: "ws \<noteq> [] \<Longrightarrow> join_with sep ([] # ws) = sep # join_with sep ws"
  by (cases ws) simp_all

lemma title_case_from_split:
  "title_case_from b s =
     join_with (CHR '' '')
       (case split_on (CHR '' '') (map norm_char s) of
          [] \<Rightarrow> []
        | w # ws \<Rightarrow> (if b then capitalize w else w) # map capitalize ws)"
proof (induction s arbitrary: b)
  case Nil
  show ?case by simp
next
  case (Cons c cs)
  obtain w ws where sp: "split_on (CHR '' '') (map norm_char cs) = w # ws"
    using split_on_nonempty [of "CHR '' ''" "map norm_char cs"] by (cases "split_on (CHR '' '') (map norm_char cs)") auto
  show ?case
  proof (cases "norm_char c = CHR '' ''")
    case True
    have "title_case_from b (c # cs) = CHR '' '' # title_case_from True cs"
      using True by (simp add: norm_char_def Let_def)
    also have "title_case_from True cs = join_with (CHR '' '') (capitalize w # map capitalize ws)"
      using Cons.IH [of True] sp by simp
    finally show ?thesis
      using True sp by (simp add: join_with_Nil_Cons)
  next
    case False
    have "title_case_from b (c # cs) =
            (if b then toUpperChar (norm_char c) else norm_char c) # title_case_from False cs"
      using False by (simp add: norm_char_def Let_def)
    also have "title_case_from False cs = join_with (CHR '' '') (w # map capitalize ws)"
      using Cons.IH [of False] sp by simp
    finally show ?thesis
      using False sp by (simp add: join_with_Cons_char)
  qed
qed

lemma cleanCategory_refines: "cleanCategory s = display_category_spec s"
proof -
  have m: "toLowerCase (replace_underscores s) = map norm_char s"
    by (simp add: toLowerCase_def replace_underscores_def norm_char_def if_distrib cong: if_cong)
  obtain w ws where sp: "split_on (CHR '' '') (map norm_char s) = w # ws"
    using split_on_nonempty [of "CHR '' ''" "map norm_char s"] by (cases "split_on (CHR '' '') (map norm_char s)") auto
  show ?thesis
    unfolding cleanCategory_def display_category_spec_def m title_case_from_split [of True s]
    using sp by simp
qed

section \<open>The loop and the dedup filter\<close>

lemma has_categorizedIds: "has (categorizedIds d u) (Some t) \<longleftrightarrow> (u, t) \<in> cat_keys d"
  by (auto simp: has_def categorizedIds_def cat_key_def)

lemma has_manualReviewIds: "has (manualReviewIds d u) (Some t) \<longleftrightarrow> (u, t) \<in> review_keys d"
  by (auto simp: has_def manualReviewIds_def review_key_def)

lemma has_None: "has ids None = False"
  by (simp add: has_def)

lemma skip_test_dedup:
  "filter (\<lambda>tx. \<not> (has (categorizedIds d u) (transaction_id tx) \<or> has (manualReviewIds d u) (transaction_id tx))) txs
     = dedup_filter d u txs"
  unfolding dedup_filter_def
  by (rule filter_cong) (auto simp: has_categorizedIds has_manualReviewIds has_None split: option.splits)

lemma classify_loop_closed:
  "classify_loop cids mids u txs (autos, manuals) =
     (autos @ map (write_for u)
                (filter is_auto (filter (\<lambda>tx. \<not> (has cids (transaction_id tx) \<or> has mids (transaction_id tx))) txs)),
      manuals @ filter (\<lambda>tx. \<not> is_auto tx)
                (filter (\<lambda>tx. \<not> (has cids (transaction_id tx) \<or> has mids (transaction_id tx))) txs))"
proof (induction txs arbitrary: autos manuals)
  case Nil
  show ?case by simp
next
  case (Cons tx txs)
  show ?case
    by (cases "classify tx") (simp_all add: Cons.IH is_auto_def write_for_def)
qed

lemma classify_loop_dedup:
  "classify_loop (categorizedIds d u) (manualReviewIds d u) u txs ([], []) =
     (map (write_for u) (filter is_auto (dedup_filter d u txs)),
      filter (\<lambda>tx. \<not> is_auto tx) (dedup_filter d u txs))"
  by (simp only: classify_loop_closed skip_test_dedup append_Nil)

lemma dedup_filter_Nil: "dedup_filter d u [] = []"
  by (simp add: dedup_filter_def)

lemma manual_writes:
  "map (insert_manual_review_for u) (filter (\<lambda>tx. \<not> is_auto tx) xs) = map (write_for u) (filter (\<lambda>tx. \<not> is_auto tx) xs)"
  by (rule map_cong) (auto simp: write_for_def is_auto_def)

lemma promise_all_Nil_guard:
  "(if ss \<noteq> [] then promise_all r n ss d else (d, None)) = promise_all r n ss d"
  by (cases ss) simp_all

lemma process_closed:
  "processTransactionsForCategorization r n txs u d =
     (case promise_all r n (map (write_for u) (filter is_auto (dedup_filter d u txs))) d of
        (d1, Some e) \<Rightarrow> (d1, Inl e)
      | (d1, None) \<Rightarrow>
          (case promise_all r n (map (write_for u) (filter (\<lambda>tx. \<not> is_auto tx) (dedup_filter d u txs))) d1 of
             (d2, Some e) \<Rightarrow> (d2, Inl e)
           | (d2, None) \<Rightarrow>
               (d2, Inr (length (filter is_auto (dedup_filter d u txs)),
                         length (filter (\<lambda>tx. \<not> is_auto tx) (dedup_filter d u txs))))))"
proof (cases "txs = []")
  case True
  then show ?thesis
    by (simp add: processTransactionsForCategorization_def dedup_filter_Nil)
next
  case False
  have g: "\<And>xs d'. (if xs \<noteq> [] then promise_all r n (map (insert_manual_review_for u) xs) d' else (d', None))
             = promise_all r n (map (insert_manual_review_for u) xs) d'"
    subgoal for xs d' by (cases xs) simp_all
    done
  show ?thesis
    using False
    by (simp add: processTransactionsForCategorization_def classify_loop_dedup
        promise_all_Nil_guard g manual_writes)
qed

section \<open>Statements and awaits\<close>

lemma exec_fails: "stmt_fails r s \<Longrightarrow> \<exists>e. exec r n s d = Inl e"
  by (cases s) (auto simp: stmt_fails_def split: option.splits)

lemma exec_succeeds: "\<not> stmt_fails r s \<Longrightarrow> \<exists>d'. exec r n s d = Inr d'"
  by (cases s) (auto simp: stmt_fails_def split: option.splits)

lemma exec_Inl_fails: "exec r n s d = Inl e \<Longrightarrow> stmt_fails r s"
  using exec_succeeds [of r s n d] by auto

lemma exec_Inr_not_fails: "exec r n s d = Inr d' \<Longrightarrow> \<not> stmt_fails r s"
  using exec_fails [of r s n d] by auto

lemma promise_all_no_error:
  "snd (promise_all r n ss d) = None \<longleftrightarrow> (\<forall>s\<in>set ss. \<not> stmt_fails r s)"
proof (induction ss arbitrary: d)
  case Nil
  show ?case by simp
next
  case (Cons s ss)
  show ?case
  proof (cases "exec r n s d")
    case (Inl e)
    then show ?thesis using exec_Inl_fails [OF Inl] by auto
  next
    case (Inr d')
    then show ?thesis using exec_Inr_not_fails [OF Inr] Cons.IH [of d'] by auto
  qed
qed

text \<open>One insert into the categorization table.\<close>

lemma exec_cat_insert_cases:
  assumes "is_cat_insert s"
  obtains (refused) "stmt_fails r s" "\<And>d. \<exists>e. exec r n s d = Inl e"
  | (stored) u t cat data where "s = InsertCategorization u (Some t) cat data" "\<not> r s"
  using assms exec_fails [of r s n]
  by (cases s) (auto simp: stmt_fails_def split: option.splits)

lemma exec_cat_insert_stored:
  assumes "\<not> r (InsertCategorization u (Some t) cat data)"
  shows "exec r n (InsertCategorization u (Some t) cat data) d =
           Inr (if (u, t) \<in> cat_keys d then d
                else d\<lparr>transaction_categorizations := transaction_categorizations d @
                        [\<lparr>c_user_id = u, c_transaction_id = t, c_category = cat,
                          c_plaid_data = data, c_created_at = n\<rparr>]\<rparr>)"
  using assms by simp

lemma promise_all_Cons_refused:
  "exec r n s d = Inl e \<Longrightarrow> fst (promise_all r n (s # ss) d) = fst (promise_all r n ss d)"
  by simp

lemma promise_all_Cons_done:
  "exec r n s d = Inr d1 \<Longrightarrow> fst (promise_all r n (s # ss) d) = fst (promise_all r n ss d1)"
  by simp

lemma promise_all_cat_reviews:
  "\<forall>s\<in>set ss. is_cat_insert s \<Longrightarrow>
     manual_review_transactions (fst (promise_all r n ss d)) = manual_review_transactions d"
proof (induction ss arbitrary: d)
  case Nil
  show ?case by simp
next
  case (Cons s ss)
  then have ih: "\<And>d1. manual_review_transactions (fst (promise_all r n ss d1)) = manual_review_transactions d1"
    by simp
  from Cons.prems have "is_cat_insert s" by simp
  then show ?case
    by (cases s) (auto simp: ih split: option.splits)
qed

lemma promise_all_cat_append:
  assumes "\<forall>s\<in>set ss. is_cat_insert s"
  shows "\<exists>ys. transaction_categorizations (fst (promise_all r n ss d))
                = transaction_categorizations d @ ys
             \<and> distinct (map cat_key ys)
             \<and> set (map cat_key ys) \<inter> cat_keys d = {}
             \<and> (\<forall>row\<in>set ys. insert_of_row row \<in> set ss \<and> c_created_at row = n)"
  using assms
proof (induction ss arbitrary: d)
  case Nil
  show ?case by simp
next
  case (Cons s ss)
  then have ins: "is_cat_insert s" and rest: "\<forall>s\<in>set ss. is_cat_insert s"
    by simp_all
  note ih = Cons.IH [OF rest]
  from ins show ?case
  proof (cases rule: exec_cat_insert_cases [where r = r and n = n])
    case refused
    then obtain e where e: "exec r n s d = Inl e" by blast
    from ih [of d] obtain ys where
      ys: "transaction_categorizations (fst (promise_all r n ss d)) = transaction_categorizations d @ ys"
          "distinct (map cat_key ys)" "set (map cat_key ys) \<inter> cat_keys d = {}"
          "\<forall>row\<in>set ys. insert_of_row row \<in> set ss \<and> c_created_at row = n"
      by blast
    have "\<forall>row\<in>set ys. insert_of_row row \<in> set (s # ss) \<and> c_created_at row = n"
      using ys(4) by simp
    with ys(1-3) show ?thesis
      unfolding promise_all_Cons_refused [OF e] by blast
  next
    case (stored u t cat data)
    show ?thesis
    proof (cases "(u, t) \<in> cat_keys d")
      case True
      then have e: "exec r n s d = Inr d"
        using stored by simp
      from ih [of d] obtain ys where
        ys: "transaction_categorizations (fst (promise_all r n ss d)) = transaction_categorizations d @ ys"
            "distinct (map cat_key ys)" "set (map cat_key ys) \<inter> cat_keys d = {}"
            "\<forall>row\<in>set ys. insert_of_row row \<in> set ss \<and> c_created_at row = n"
        by blast
      have "\<forall>row\<in>set ys. insert_of_row row \<in> set (s # ss) \<and> c_created_at row = n"
        using ys(4) by simp
      with ys(1-3) show ?thesis
        unfolding promise_all_Cons_done [OF e] by blast
    next
      case False
      define row where "row = \<lparr>c_user_id = u, c_transaction_id = t, c_category = cat,
                          c_plaid_data = data, c_created_at = n\<rparr>"
      define d1 where "d1 = d\<lparr>transaction_categorizations := transaction_categorizations d @ [row]\<rparr>"
      have e: "exec r n s d = Inr d1"
        using stored False by (simp add: d1_def row_def)
      have k: "cat_key row = (u, t)" by (simp add: row_def cat_key_def)
      have c1: "transaction_categorizations d1 = transaction_categorizations d @ [row]"
        by (simp add: d1_def)
      from ih [of d1] obtain ys where
        ys: "transaction_categorizations (fst (promise_all r n ss d1)) = transaction_categorizations d1 @ ys"
            "distinct (map cat_key ys)" "set (map cat_key ys) \<inter> cat_keys d1 = {}"
            "\<forall>row\<in>set ys. insert_of_row row \<in> set ss \<and> c_created_at row = n"
        by blast
      have rowin: "insert_of_row row = s" "c_created_at row = n"
        using stored by (simp_all add: row_def insert_of_row_def)
      have 1: "transaction_categorizations (fst (promise_all r n ss d1))
                 = transaction_categorizations d @ (row # ys)"
        using ys(1) c1 by simp
      have 2: "distinct (map cat_key (row # ys))"
        using ys(2,3) c1 by auto
      have 3: "set (map cat_key (row # ys)) \<inter> cat_keys d = {}"
        using ys(3) c1 k False by auto
      have 4: "\<forall>row'\<in>set (row # ys). insert_of_row row' \<in> set (s # ss) \<and> c_created_at row' = n"
        using ys(4) rowin by simp
      from 1 2 3 4 show ?thesis
        unfolding promise_all_Cons_done [OF e] by blast
    qed
  qed
qed

lemma promise_all_cat_mono:
  assumes "\<forall>s\<in>set ss. is_cat_insert s"
  shows "cat_keys d \<subseteq> cat_keys (fst (promise_all r n ss d))"
  using promise_all_cat_append [OF assms, of r n d] by auto

lemma promise_all_cat_stored:
  assumes "\<forall>s\<in>set ss. is_cat_insert s"
    and "InsertCategorization u (Some t) cat data \<in> set ss"
    and "\<not> r (InsertCategorization u (Some t) cat data)"
  shows "(u, t) \<in> cat_keys (fst (promise_all r n ss d))"
  using assms
proof (induction ss arbitrary: d)
  case Nil
  then show ?case by simp
next
  case (Cons s ss)
  then have rest: "\<forall>s\<in>set ss. is_cat_insert s" by simp
  show ?case
  proof (cases "s = InsertCategorization u (Some t) cat data")
    case True
    define d1 where "d1 = (if (u, t) \<in> cat_keys d then d
                else d\<lparr>transaction_categorizations := transaction_categorizations d @
                        [\<lparr>c_user_id = u, c_transaction_id = t, c_category = cat,
                          c_plaid_data = data, c_created_at = n\<rparr>]\<rparr>)"
    have e: "exec r n s d = Inr d1"
      unfolding True d1_def using Cons.prems(3) by (rule exec_cat_insert_stored)
    have "(u, t) \<in> cat_keys d1"
      by (simp add: d1_def cat_key_def)
    then show ?thesis
      unfolding promise_all_Cons_done [OF e]
      using promise_all_cat_mono [OF rest, of d1 r n] by blast
  next
    case False
    then have mem: "InsertCategorization u (Some t) cat data \<in> set ss"
      using Cons.prems(2) by simp
    show ?thesis
    proof (cases "exec r n s d")
      case (Inl e)
      show ?thesis
        unfolding promise_all_Cons_refused [OF Inl]
        by (rule Cons.IH [OF rest mem Cons.prems(3)])
    next
      case (Inr d1)
      show ?thesis
        unfolding promise_all_Cons_done [OF Inr]
        by (rule Cons.IH [OF rest mem Cons.prems(3)])
    qed
  qed
qed

text \<open>One insert into the manual-review table.\<close>

lemma exec_review_insert_cases:
  assumes "is_review_insert s"
  obtains (refused) "stmt_fails r s" "\<And>d. \<exists>e. exec r n s d = Inl e"
  | (stored) u t data where "s = InsertManualReview u (Some t) data" "\<not> r s"
  using assms exec_fails [of r s n]
  by (cases s) (auto simp: stmt_fails_def split: option.splits)

lemma exec_review_insert_stored:
  assumes "\<not> r (InsertManualReview u (Some t) data)"
  shows "exec r n (InsertManualReview u (Some t) data) d =
           Inr (if (u, t) \<in> review_keys d then d
                else d\<lparr>manual_review_transactions := manual_review_transactions d @
                        [\<lparr>m_user_id = u, m_transaction_id = t, m_transaction_data = data,
                          m_created_at = n\<rparr>]\<rparr>)"
  using assms by simp

lemma promise_all_review_cats:
  "\<forall>s\<in>set ss. is_review_insert s \<Longrightarrow>
     transaction_categorizations (fst (promise_all r n ss d)) = transaction_categorizations d"
proof (induction ss arbitrary: d)
  case Nil
  show ?case by simp
next
  case (Cons s ss)
  then have ih: "\<And>d1. transaction_categorizations (fst (promise_all r n ss d1)) = transaction_categorizations d1"
    by simp
  from Cons.prems have "is_review_insert s" by simp
  then show ?case
    by (cases s) (auto simp: ih split: option.splits)
qed

lemma promise_all_review_append:
  assumes "\<forall>s\<in>set ss. is_review_insert s"
  shows "\<exists>ys. manual_review_transactions (fst (promise_all r n ss d))
                = manual_review_transactions d @ ys
             \<and> distinct (map review_key ys)
             \<and> set (map review_key ys) \<inter> review_keys d = {}
             \<and> (\<forall>row\<in>set ys. insert_of_review_row row \<in> set ss \<and> m_created_at row = n)"
  using assms
proof (induction ss arbitrary: d)
  case Nil
  show ?case by simp
next
  case (Cons s ss)
  then have ins: "is_review_insert s" and rest: "\<forall>s\<in>set ss. is_review_insert s"
    by simp_all
  note ih = Cons.IH [OF rest]
  from ins show ?case
  proof (cases rule: exec_review_insert_cases [where r = r and n = n])
    case refused
    then obtain e where e: "exec r n s d = Inl e" by blast
    from ih [of d] obtain ys where
      ys: "manual_review_transactions (fst (promise_all r n ss d)) = manual_review_transactions d @ ys"
          "distinct (map review_key ys)" "set (map review_key ys) \<inter> review_keys d = {}"
          "\<forall>row\<in>set ys. insert_of_review_row row \<in> set ss \<and> m_created_at row = n"
      by blast
    have "\<forall>row\<in>set ys. insert_of_review_row row \<in> set (s # ss) \<and> m_created_at row = n"
      using ys(4) by simp
    with ys(1-3) show ?thesis
      unfolding promise_all_Cons_refused [OF e] by blast
  next
    case (stored u t data)
    show ?thesis
    proof (cases "(u, t) \<in> review_keys d")
      case True
      then have e: "exec r n s d = Inr d"
        using stored by simp
      from ih [of d] obtain ys where
        ys: "manual_review_transactions (fst (promise_all r n ss d)) = manual_review_transactions d @ ys"
            "distinct (map review_key ys)" "set (map review_key ys) \<inter> review_keys d = {}"
            "\<forall>row\<in>set ys. insert_of_review_row row \<in> set ss \<and> m_created_at row = n"
        by blast
      have "\<forall>row\<in>set ys. insert_of_review_row row \<in> set (s # ss) \<and> m_created_at row = n"
        using ys(4) by simp
      with ys(1-3) show ?thesis
        unfolding promise_all_Cons_done [OF e] by blast
    next
      case False
      define row where "row = \<lparr>m_user_id = u, m_transaction_id = t, m_transaction_data = data,
                          m_created_at = n\<rparr>"
      define d1 where "d1 = d\<lparr>manual_review_transactions := manual_review_transactions d @ [row]\<rparr>"
      have e: "exec r n s d = Inr d1"
        using stored False by (simp add: d1_def row_def)
      have k: "review_key row = (u, t)" by (simp add: row_def review_key_def)
      have c1: "manual_review_transactions d1 = manual_review_transactions d @ [row]"
        by (simp add: d1_def)
      from ih [of d1] obtain ys where
        ys: "manual_review_transactions (fst (promise_all r n ss d1)) = manual_review_transactions d1 @ ys"
            "distinct (map review_key ys)" "set (map review_key ys) \<inter> review_keys d1 = {}"
            "\<forall>row\<in>set ys. insert_of_review_row row \<in> set ss \<and> m_created_at row = n"
        by blast
      have rowin: "insert_of_review_row row = s" "m_created_at row = n"
        using stored by (simp_all add: row_def insert_of_review_row_def)
      have 1: "manual_review_transactions (fst (promise_all r n ss d1))
                 = manual_review_transactions d @ (row # ys)"
        using ys(1) c1 by simp
      have 2: "distinct (map review_key (row # ys))"
        using ys(2,3) c1 by auto
      have 3: "set (map review_key (row # ys)) \<inter> review_keys d = {}"
        using ys(3) c1 k False by auto
      have 4: "\<forall>row'\<in>set (row # ys). insert_of_review_row row' \<in> set (s # ss) \<and> m_created_at row' = n"
        using ys(4) rowin by simp
      from 1 2 3 4 show ?thesis
        unfolding promise_all_Cons_done [OF e] by blast
    qed
  qed
qed

lemma promise_all_review_mono:
  assumes "\<forall>s\<in>set ss. is_review_insert s"
  shows "review_keys d \<subseteq> review_keys (fst (promise_all r n ss d))"
  using promise_all_review_append [OF assms, of r n d] by auto

lemma promise_all_review_stored:
  assumes "\<forall>s\<in>set ss. is_review_insert s"
    and "InsertManualReview u (Some t) data \<in> set ss"
    and "\<not> r (InsertManualReview u (Some t) data)"
  shows "(u, t) \<in> review_keys (fst (promise_all r n ss d))"
  using assms
proof (induction ss arbitrary: d)
  case Nil
  then show ?case by simp
next
  case (Cons s ss)
  then have rest: "\<forall>s\<in>set ss. is_review_insert s" by simp
  show ?case
  proof (cases "s = InsertManualReview u (Some t) data")
    case True
    define d1 where "d1 = (if (u, t) \<in> review_keys d then d
                else d\<lparr>manual_review_transactions := manual_review_transactions d @
                        [\<lparr>m_user_id = u, m_transaction_id = t, m_transaction_data = data,
                          m_created_at = n\<rparr>]\<rparr>)"
    have e: "exec r n s d = Inr d1"
      unfolding True d1_def using Cons.prems(3) by (rule exec_review_insert_stored)
    have "(u, t) \<in> review_keys d1"
      by (simp add: d1_def review_key_def)
    then show ?thesis
      unfolding promise_all_Cons_done [OF e]
      using promise_all_review_mono [OF rest, of d1 r n] by blast
  next
    case False
    then have mem: "InsertManualReview u (Some t) data \<in> set ss"
      using Cons.prems(2) by simp
    show ?thesis
    proof (cases "exec r n s d")
      case (Inl e)
      show ?thesis
        unfolding promise_all_Cons_refused [OF Inl]
        by (rule Cons.IH [OF rest mem Cons.prems(3)])
    next
      case (Inr d1)
      show ?thesis
        unfolding promise_all_Cons_done [OF Inr]
        by (rule Cons.IH [OF rest mem Cons.prems(3)])
    qed
  qed
qed


section \<open>The ingestion step as two awaits\<close>

lemma write_for_auto:
  "is_auto tx \<Longrightarrow>
     \<exists>c. classify tx = Auto c
        \<and> write_for u tx = InsertCategorization u (transaction_id tx) c (Some (raw_json tx))"
  by (cases "classify tx") (simp_all add: is_auto_def write_for_def insert_categorization_for_def)

lemma write_for_manual:
  "\<not> is_auto tx \<Longrightarrow> write_for u tx = InsertManualReview u (transaction_id tx) (raw_json tx)"
  by (simp add: is_auto_def write_for_def insert_manual_review_for_def)

lemma auto_writes_are_cat_inserts:
  "\<forall>s\<in>set (map (write_for u) (auto_survivors d u txs)). is_cat_insert s"
proof
  fix s
  assume "s \<in> set (map (write_for u) (auto_survivors d u txs))"
  then obtain tx where "is_auto tx" and "s = write_for u tx"
    by (auto simp: auto_survivors_def)
  with write_for_auto [of tx u] show "is_cat_insert s"
    by auto
qed

lemma manual_writes_are_review_inserts:
  "\<forall>s\<in>set (map (write_for u) (manual_survivors d u txs)). is_review_insert s"
proof
  fix s
  assume "s \<in> set (map (write_for u) (manual_survivors d u txs))"
  then obtain tx where "\<not> is_auto tx" and "s = write_for u tx"
    by (auto simp: manual_survivors_def)
  with write_for_manual [of tx u] show "is_review_insert s"
    by auto
qed

lemma survivors_split:
  "set (dedup_filter d u txs) = set (auto_survivors d u txs) \<union> set (manual_survivors d u txs)"
  by (auto simp: auto_survivors_def manual_survivors_def)

lemma survivors_length:
  "length (auto_survivors d u txs) + length (manual_survivors d u txs) = length (dedup_filter d u txs)"
  unfolding auto_survivors_def manual_survivors_def
  by (rule sum_length_filter_compl)

lemma process_two_awaits:
  "processTransactionsForCategorization r n txs u d =
     (case snd (promise_all r n (map (write_for u) (auto_survivors d u txs)) d) of
        Some e \<Rightarrow> (after_auto r n txs u d, Inl e)
      | None \<Rightarrow>
          (case snd (promise_all r n (map (write_for u) (manual_survivors d u txs))
                       (after_auto r n txs u d)) of
             Some e \<Rightarrow> (after_manual r n txs u d, Inl e)
           | None \<Rightarrow>
               (after_manual r n txs u d,
                Inr (length (auto_survivors d u txs), length (manual_survivors d u txs)))))"
proof -
  obtain d1 ea where pa: "promise_all r n (map (write_for u) (auto_survivors d u txs)) d = (d1, ea)"
    by (cases "promise_all r n (map (write_for u) (auto_survivors d u txs)) d") blast
  obtain d2 em where pm: "promise_all r n (map (write_for u) (manual_survivors d u txs)) d1 = (d2, em)"
    by (cases "promise_all r n (map (write_for u) (manual_survivors d u txs)) d1") blast
  have a1: "after_auto r n txs u d = d1"
    by (simp add: after_auto_def pa)
  have a2: "after_manual r n txs u d = d2"
    by (simp add: after_manual_def a1 pm)
  have "processTransactionsForCategorization r n txs u d =
          (case ea of Some e \<Rightarrow> (d1, Inl e)
           | None \<Rightarrow> (case em of Some e \<Rightarrow> (d2, Inl e)
                      | None \<Rightarrow> (d2, Inr (length (auto_survivors d u txs),
                                           length (manual_survivors d u txs)))))"
    using pa pm
    by (simp add: process_closed auto_survivors_def manual_survivors_def split: option.splits)
  then show ?thesis
    by (simp add: a1 a2 pa pm split: option.splits)
qed

lemma process_fst:
  "fst (processTransactionsForCategorization r n txs u d) =
     (if \<forall>tx\<in>set (auto_survivors d u txs). \<not> stmt_fails r (write_for u tx)
      then after_manual r n txs u d else after_auto r n txs u d)"
proof -
  have "snd (promise_all r n (map (write_for u) (auto_survivors d u txs)) d) = None
          \<longleftrightarrow> (\<forall>tx\<in>set (auto_survivors d u txs). \<not> stmt_fails r (write_for u tx))"
    by (simp add: promise_all_no_error)
  then show ?thesis
    unfolding process_two_awaits by (auto split: option.splits)
qed

lemma process_snd_ok:
  assumes "\<forall>tx\<in>set (dedup_filter d u txs). \<not> stmt_fails r (write_for u tx)"
  shows "snd (processTransactionsForCategorization r n txs u d) =
           Inr (length (auto_survivors d u txs), length (manual_survivors d u txs))"
proof -
  have a: "snd (promise_all r n (map (write_for u) (auto_survivors d u txs)) d) = None"
    using assms by (simp add: promise_all_no_error survivors_split)
  have m: "snd (promise_all r n (map (write_for u) (manual_survivors d u txs))
                  (after_auto r n txs u d)) = None"
    using assms by (simp add: promise_all_no_error survivors_split)
  show ?thesis
    unfolding process_two_awaits by (simp add: a m)
qed

lemma process_snd_fail:
  assumes "tx \<in> set (dedup_filter d u txs)" and "stmt_fails r (write_for u tx)"
  shows "\<exists>e. snd (processTransactionsForCategorization r n txs u d) = Inl e"
proof (cases "tx \<in> set (auto_survivors d u txs)")
  case True
  then have "snd (promise_all r n (map (write_for u) (auto_survivors d u txs)) d) \<noteq> None"
    using assms(2) by (auto simp: promise_all_no_error)
  then show ?thesis
    unfolding process_two_awaits by (auto split: option.splits)
next
  case False
  then have "tx \<in> set (manual_survivors d u txs)"
    using assms(1) by (simp add: survivors_split)
  then have "snd (promise_all r n (map (write_for u) (manual_survivors d u txs))
                    (after_auto r n txs u d)) \<noteq> None"
    using assms(2) by (auto simp: promise_all_no_error)
  then show ?thesis
    unfolding process_two_awaits by (auto split: option.splits)
qed

lemma process_snd_Inr:
  assumes "snd (processTransactionsForCategorization r n txs u d) = Inr (a, m)"
  shows "a = length (auto_survivors d u txs) \<and> m = length (manual_survivors d u txs)
         \<and> (\<forall>tx\<in>set (dedup_filter d u txs). \<not> stmt_fails r (write_for u tx))"
proof -
  have nf: "\<forall>tx\<in>set (dedup_filter d u txs). \<not> stmt_fails r (write_for u tx)"
    using process_snd_fail [of _ d u txs r n] assms by fastforce
  from process_snd_ok [OF nf, of n] assms show ?thesis
    using nf by simp
qed

lemma dedup_filter_idem: "dedup_filter d u (dedup_filter d u txs) = dedup_filter d u txs"
  by (simp add: dedup_filter_def)

lemma process_dedup:
  "processTransactionsForCategorization r n (dedup_filter d u txs) u d =
   processTransactionsForCategorization r n txs u d"
  by (simp only: process_closed dedup_filter_idem)

section \<open>What ingestion does to the tables\<close>

lemma after_auto_reviews:
  "manual_review_transactions (after_auto r n txs u d) = manual_review_transactions d"
  unfolding after_auto_def
  by (rule promise_all_cat_reviews [OF auto_writes_are_cat_inserts])

lemma after_manual_cats:
  "transaction_categorizations (after_manual r n txs u d)
     = transaction_categorizations (after_auto r n txs u d)"
  unfolding after_manual_def
  by (rule promise_all_review_cats [OF manual_writes_are_review_inserts])

lemma ingestion_cats:
  "\<exists>ys. transaction_categorizations (fst (processTransactionsForCategorization r n txs u d))
            = transaction_categorizations d @ ys
        \<and> distinct (map cat_key ys)
        \<and> set (map cat_key ys) \<inter> cat_keys d = {}
        \<and> (\<forall>row\<in>set ys. insert_of_row row \<in> set (map (write_for u) (auto_survivors d u txs))
                          \<and> c_created_at row = n)"
proof -
  have "transaction_categorizations (fst (processTransactionsForCategorization r n txs u d))
          = transaction_categorizations (after_auto r n txs u d)"
    by (simp add: process_fst after_manual_cats)
  moreover have aw: "\<forall>s\<in>set (map (write_for u) (auto_survivors d u txs)). is_cat_insert s"
    by (rule auto_writes_are_cat_inserts)
  ultimately show ?thesis
    unfolding after_auto_def
    using promise_all_cat_append [OF aw, of r n d] by simp
qed

lemma ingestion_reviews:
  "\<exists>zs. manual_review_transactions (fst (processTransactionsForCategorization r n txs u d))
            = manual_review_transactions d @ zs
        \<and> distinct (map review_key zs)
        \<and> set (map review_key zs) \<inter> review_keys d = {}
        \<and> (\<forall>row\<in>set zs. insert_of_review_row row
                             \<in> set (map (write_for u) (manual_survivors d u txs))
                          \<and> m_created_at row = n)"
proof (cases "\<forall>tx\<in>set (auto_survivors d u txs). \<not> stmt_fails r (write_for u tx)")
  case True
  then have "fst (processTransactionsForCategorization r n txs u d) = after_manual r n txs u d"
    by (simp add: process_fst)
  moreover have mw: "\<forall>s\<in>set (map (write_for u) (manual_survivors d u txs)). is_review_insert s"
    by (rule manual_writes_are_review_inserts)
  ultimately show ?thesis
    unfolding after_manual_def
    using promise_all_review_append [OF mw, of r n "after_auto r n txs u d"]
    by (simp add: after_auto_reviews)
next
  case False
  then have "fst (processTransactionsForCategorization r n txs u d) = after_auto r n txs u d"
    unfolding process_fst by (simp only: if_False)
  then have "manual_review_transactions (fst (processTransactionsForCategorization r n txs u d))
               = manual_review_transactions d @ []"
    by (simp add: after_auto_reviews)
  then show ?thesis
    by (intro exI [of _ "[]"]) simp
qed

text \<open>A surviving transaction has no row under its key, in either table.\<close>

lemma survivor_key_fresh:
  assumes "tx \<in> set (dedup_filter d u txs)" and "transaction_id tx = Some t"
  shows "(u, t) \<notin> cat_keys d \<and> (u, t) \<notin> review_keys d"
  using assms by (auto simp: dedup_filter_def)

lemma survivor_in_batch: "tx \<in> set (dedup_filter d u txs) \<Longrightarrow> tx \<in> set txs"
  by (simp add: dedup_filter_def)

lemma survivor_intro:
  assumes "tx \<in> set txs"
    and "\<And>t. transaction_id tx = Some t \<Longrightarrow> (u, t) \<notin> cat_keys d \<and> (u, t) \<notin> review_keys d"
  shows "tx \<in> set (dedup_filter d u txs)"
  using assms by (auto simp: dedup_filter_def split: option.splits)

text \<open>Every new categorization row is the row of a surviving auto transaction.\<close>

lemma new_cat_row_origin:
  assumes "insert_of_row row \<in> set (map (write_for u) (auto_survivors d u txs))"
  shows "\<exists>tx\<in>set (auto_survivors d u txs).
           c_user_id row = u \<and> transaction_id tx = Some (c_transaction_id row)
           \<and> classify tx = Auto (c_category row) \<and> c_plaid_data row = Some (raw_json tx)"
proof -
  from assms obtain tx where tx: "tx \<in> set (auto_survivors d u txs)"
    and w: "insert_of_row row = write_for u tx"
    by auto
  from tx have "is_auto tx" by (simp add: auto_survivors_def)
  from write_for_auto [OF this, of u] obtain c where
    c: "classify tx = Auto c"
       "write_for u tx = InsertCategorization u (transaction_id tx) c (Some (raw_json tx))"
    by blast
  from w c(2) have "c_user_id row = u \<and> transaction_id tx = Some (c_transaction_id row)
                    \<and> c = c_category row \<and> c_plaid_data row = Some (raw_json tx)"
    by (auto simp: insert_of_row_def)
  with c(1) tx show ?thesis by blast
qed

lemma new_review_row_origin:
  assumes "insert_of_review_row row \<in> set (map (write_for u) (manual_survivors d u txs))"
  shows "\<exists>tx\<in>set (manual_survivors d u txs).
           m_user_id row = u \<and> transaction_id tx = Some (m_transaction_id row)
           \<and> classify tx = Manual \<and> m_transaction_data row = raw_json tx"
proof -
  from assms obtain tx where tx: "tx \<in> set (manual_survivors d u txs)"
    and w: "insert_of_review_row row = write_for u tx"
    by auto
  from tx have m: "\<not> is_auto tx" by (simp add: manual_survivors_def)
  from w write_for_manual [OF m, of u]
  have "m_user_id row = u \<and> transaction_id tx = Some (m_transaction_id row)
        \<and> m_transaction_data row = raw_json tx"
    by (auto simp: insert_of_review_row_def)
  with m tx show ?thesis by (auto simp: is_auto_def)
qed

text \<open>A write that is not refused leaves a row under its key.\<close>

lemma auto_write_persisted:
  assumes "tx \<in> set (auto_survivors d u txs)" and "\<not> stmt_fails r (write_for u tx)"
  shows "\<exists>t. transaction_id tx = Some t
            \<and> (u, t) \<in> cat_keys (fst (processTransactionsForCategorization r n txs u d))"
proof -
  from assms(1) have "is_auto tx" by (simp add: auto_survivors_def)
  from write_for_auto [OF this, of u] obtain c where
    w: "write_for u tx = InsertCategorization u (transaction_id tx) c (Some (raw_json tx))"
    by blast
  from assms(2) w obtain t where t: "transaction_id tx = Some t"
    by (cases "transaction_id tx") (auto simp: stmt_fails_def)
  have nr: "\<not> r (InsertCategorization u (Some t) c (Some (raw_json tx)))"
    using assms(2) w t by (simp add: stmt_fails_def)
  have mem: "InsertCategorization u (Some t) c (Some (raw_json tx))
               \<in> set (map (write_for u) (auto_survivors d u txs))"
    using assms(1) w t by force
  have aw: "\<forall>s\<in>set (map (write_for u) (auto_survivors d u txs)). is_cat_insert s"
    by (rule auto_writes_are_cat_inserts)
  have "(u, t) \<in> cat_keys (after_auto r n txs u d)"
    unfolding after_auto_def
    using aw mem nr by (rule promise_all_cat_stored)
  then have "(u, t) \<in> cat_keys (fst (processTransactionsForCategorization r n txs u d))"
    by (simp add: process_fst after_manual_cats)
  with t show ?thesis by blast
qed

lemma manual_write_persisted:
  assumes "tx \<in> set (manual_survivors d u txs)" and "\<not> stmt_fails r (write_for u tx)"
    and "\<forall>tx\<in>set (auto_survivors d u txs). \<not> stmt_fails r (write_for u tx)"
  shows "\<exists>t. transaction_id tx = Some t
            \<and> (u, t) \<in> review_keys (fst (processTransactionsForCategorization r n txs u d))"
proof -
  from assms(1) have "\<not> is_auto tx" by (simp add: manual_survivors_def)
  from write_for_manual [OF this, of u]
  have w: "write_for u tx = InsertManualReview u (transaction_id tx) (raw_json tx)" .
  from assms(2) w obtain t where t: "transaction_id tx = Some t"
    by (cases "transaction_id tx") (auto simp: stmt_fails_def)
  have nr: "\<not> r (InsertManualReview u (Some t) (raw_json tx))"
    using assms(2) w t by (simp add: stmt_fails_def)
  have mem: "InsertManualReview u (Some t) (raw_json tx)
               \<in> set (map (write_for u) (manual_survivors d u txs))"
    using assms(1) w t by force
  have mw: "\<forall>s\<in>set (map (write_for u) (manual_survivors d u txs)). is_review_insert s"
    by (rule manual_writes_are_review_inserts)
  have "(u, t) \<in> review_keys (after_manual r n txs u d)"
    unfolding after_manual_def
    using mw mem nr by (rule promise_all_review_stored)
  then have "(u, t) \<in> review_keys (fst (processTransactionsForCategorization r n txs u d))"
    using assms(3) by (simp add: process_fst)
  with t show ?thesis by blast
qed

text \<open>
  The effect of one ingestion call in one statement: each table grows at its end by rows
  with new, pairwise different keys, and every new row comes from a surviving transaction of
  the matching decision.
\<close>

lemma ingestion_effect:
  "\<exists>ys zs.
     transaction_categorizations (fst (processTransactionsForCategorization r n txs u d))
       = transaction_categorizations d @ ys
     \<and> manual_review_transactions (fst (processTransactionsForCategorization r n txs u d))
       = manual_review_transactions d @ zs
     \<and> distinct (map cat_key ys) \<and> distinct (map review_key zs)
     \<and> (\<forall>row\<in>set ys. cat_key row \<notin> cat_keys d \<and> cat_key row \<notin> review_keys d
           \<and> c_created_at row = n
           \<and> (\<exists>tx\<in>set (auto_survivors d u txs).
                 c_user_id row = u \<and> transaction_id tx = Some (c_transaction_id row)
                 \<and> classify tx = Auto (c_category row) \<and> c_plaid_data row = Some (raw_json tx)))
     \<and> (\<forall>row\<in>set zs. review_key row \<notin> cat_keys d \<and> review_key row \<notin> review_keys d
           \<and> m_created_at row = n
           \<and> (\<exists>tx\<in>set (manual_survivors d u txs).
                 m_user_id row = u \<and> transaction_id tx = Some (m_transaction_id row)
                 \<and> classify tx = Manual \<and> m_transaction_data row = raw_json tx))"
proof -
  let ?d' = "fst (processTransactionsForCategorization r n txs u d)"
  from ingestion_cats [of r n txs u d] obtain ys where
    ys: "transaction_categorizations ?d' = transaction_categorizations d @ ys"
        "distinct (map cat_key ys)"
        "\<forall>row\<in>set ys. insert_of_row row \<in> set (map (write_for u) (auto_survivors d u txs))
                        \<and> c_created_at row = n"
    by blast
  from ingestion_reviews [of r n txs u d] obtain zs where
    zs: "manual_review_transactions ?d' = manual_review_transactions d @ zs"
        "distinct (map review_key zs)"
        "\<forall>row\<in>set zs. insert_of_review_row row \<in> set (map (write_for u) (manual_survivors d u txs))
                        \<and> m_created_at row = n"
    by blast
  have cat_rows: "cat_key row \<notin> cat_keys d \<and> cat_key row \<notin> review_keys d
           \<and> c_created_at row = n
           \<and> (\<exists>tx\<in>set (auto_survivors d u txs).
                 c_user_id row = u \<and> transaction_id tx = Some (c_transaction_id row)
                 \<and> classify tx = Auto (c_category row) \<and> c_plaid_data row = Some (raw_json tx))"
    if "row \<in> set ys" for row
  proof -
    from that ys(3) have o: "insert_of_row row \<in> set (map (write_for u) (auto_survivors d u txs))"
      and c: "c_created_at row = n" by auto
    from new_cat_row_origin [OF o] obtain tx where
      tx: "tx \<in> set (auto_survivors d u txs)" "c_user_id row = u"
          "transaction_id tx = Some (c_transaction_id row)"
          "classify tx = Auto (c_category row)" "c_plaid_data row = Some (raw_json tx)"
      by blast
    from tx(1) have "tx \<in> set (dedup_filter d u txs)"
      by (simp add: auto_survivors_def)
    from survivor_key_fresh [OF this tx(3)] tx(2)
    have "cat_key row \<notin> cat_keys d \<and> cat_key row \<notin> review_keys d"
      by (simp add: cat_key_def)
    with c tx show ?thesis by blast
  qed
  have review_rows: "review_key row \<notin> cat_keys d \<and> review_key row \<notin> review_keys d
           \<and> m_created_at row = n
           \<and> (\<exists>tx\<in>set (manual_survivors d u txs).
                 m_user_id row = u \<and> transaction_id tx = Some (m_transaction_id row)
                 \<and> classify tx = Manual \<and> m_transaction_data row = raw_json tx)"
    if "row \<in> set zs" for row
  proof -
    from that zs(3)
    have o: "insert_of_review_row row \<in> set (map (write_for u) (manual_survivors d u txs))"
      and c: "m_created_at row = n" by auto
    from new_review_row_origin [OF o] obtain tx where
      tx: "tx \<in> set (manual_survivors d u txs)" "m_user_id row = u"
          "transaction_id tx = Some (m_transaction_id row)"
          "classify tx = Manual" "m_transaction_data row = raw_json tx"
      by blast
    from tx(1) have "tx \<in> set (dedup_filter d u txs)"
      by (simp add: manual_survivors_def)
    from survivor_key_fresh [OF this tx(3)] tx(2)
    have "review_key row \<notin> cat_keys d \<and> review_key row \<notin> review_keys d"
      by (simp add: review_key_def)
    with c tx show ?thesis by blast
  qed
  from ys(1,2) zs(1,2) cat_rows review_rows show ?thesis
    by blast
qed

lemma ingestion_keys_mono:
  "cat_keys d \<subseteq> cat_keys (fst (processTransactionsForCategorization r n txs u d))
   \<and> review_keys d \<subseteq> review_keys (fst (processTransactionsForCategorization r n txs u d))"
  using ingestion_cats [of r n txs u d] ingestion_reviews [of r n txs u d] by auto

lemma not_survivor:
  assumes "tx \<in> set txs" and "tx \<notin> set (dedup_filter d u txs)"
  shows "\<exists>t. transaction_id tx = Some t \<and> ((u, t) \<in> cat_keys d \<or> (u, t) \<in> review_keys d)"
  using assms by (auto simp: dedup_filter_def split: option.splits)

lemma dedup_filter_empty:
  assumes "\<And>tx. tx \<in> set txs \<Longrightarrow>
             \<exists>t. transaction_id tx = Some t \<and> ((u, t) \<in> cat_keys d \<or> (u, t) \<in> review_keys d)"
  shows "dedup_filter d u txs = []"
  unfolding dedup_filter_def filter_empty_conv
  using assms by fastforce

lemma process_nothing_new:
  assumes "dedup_filter d u txs = []"
  shows "processTransactionsForCategorization r n txs u d = (d, Inr (0, 0))"
  by (simp add: process_closed assms)

lemma filter_key_distinct:
  "distinct (map f ys) \<Longrightarrow> length (filter (\<lambda>row. f row = k) ys) \<le> 1"
proof (induction ys)
  case Nil
  show ?case by simp
next
  case (Cons a ys)
  show ?case
  proof (cases "f a = k")
    case True
    with Cons.prems have "k \<notin> f ` set ys" by auto
    then have "filter (\<lambda>row. f row = k) ys = []"
      by (auto simp: filter_empty_conv)
    with True show ?thesis by simp
  next
    case False
    with Cons show ?thesis by simp
  qed
qed

lemma filter_key_absent:
  "k \<notin> set (map f xs) \<Longrightarrow> filter (\<lambda>row. f row = k) xs = []"
  by (auto simp: filter_empty_conv)

section \<open>Explicit categorization: the two statements\<close>

lemma cat_key_overwrite: "cat_key (overwrite c data n k row) = cat_key row"
  by (simp add: overwrite_def cat_key_def)

lemma overwrite_other: "cat_key row \<noteq> k \<Longrightarrow> overwrite c data n k row = row"
  by (simp add: overwrite_def)

lemma overwrite_values:
  "cat_key row = k \<Longrightarrow>
     c_category (overwrite c data n k row) = c
     \<and> c_plaid_data (overwrite c data n k row) = data
     \<and> c_created_at (overwrite c data n k row) = n"
  by (simp add: overwrite_def)

lemma map_overwrite_keys: "map cat_key (map (overwrite c data n k) rows) = map cat_key rows"
  by (simp add: cat_key_overwrite)

lemma map_overwrite_others:
  "filter (\<lambda>row. cat_key row \<noteq> k) (map (overwrite c data n k) rows)
   = filter (\<lambda>row. cat_key row \<noteq> k) rows"
proof (induction rows)
  case Nil
  show ?case by simp
next
  case (Cons row rows)
  show ?case
  proof (cases "cat_key row = k")
    case True
    then show ?thesis using Cons.IH by (simp add: cat_key_overwrite)
  next
    case False
    then show ?thesis using Cons.IH by (simp add: cat_key_overwrite overwrite_other)
  qed
qed

lemma map_overwrite_values:
  assumes "row \<in> set (map (overwrite c data n k) rows)" and "cat_key row = k"
  shows "c_category row = c \<and> c_plaid_data row = data \<and> c_created_at row = n"
proof -
  from assms(1) obtain old where old: "row = overwrite c data n k old"
    by auto
  with assms(2) have "cat_key old = k"
    by (simp add: cat_key_overwrite)
  from overwrite_values [OF this, of c data n] old show ?thesis
    by simp
qed


lemma upsert_Inr_ids:
  assumes "exec r n (UpsertCategorization u tid cat data) d = Inr d1"
  shows "\<exists>t c. tid = Some t \<and> cat = Some c \<and> \<not> r (UpsertCategorization u (Some t) (Some c) data)"
proof (cases tid)
  case None
  with assms show ?thesis by (simp split: if_splits)
next
  case (Some t)
  show ?thesis
  proof (cases cat)
    case None
    with assms Some show ?thesis by (simp split: if_splits)
  next
    case (Some c)
    with assms \<open>tid = Some t\<close> show ?thesis by (simp split: if_splits)
  qed
qed

lemma exec_upsert_present:
  assumes "\<not> r (UpsertCategorization u (Some t) (Some c) data)" and "(u, t) \<in> cat_keys d"
  shows "exec r n (UpsertCategorization u (Some t) (Some c) data) d =
           Inr (d\<lparr>transaction_categorizations :=
                  map (overwrite c data n (u, t)) (transaction_categorizations d)\<rparr>)"
  using assms by simp

lemma exec_upsert_absent:
  assumes "\<not> r (UpsertCategorization u (Some t) (Some c) data)" and "(u, t) \<notin> cat_keys d"
  shows "exec r n (UpsertCategorization u (Some t) (Some c) data) d =
           Inr (d\<lparr>transaction_categorizations := transaction_categorizations d @
                  [\<lparr>c_user_id = u, c_transaction_id = t, c_category = c, c_plaid_data = data,
                    c_created_at = n\<rparr>]\<rparr>)"
  using assms by simp

lemma upsert_effect:
  assumes "exec r n (UpsertCategorization u tid cat data) d = Inr d1"
  shows "\<exists>t c. tid = Some t \<and> cat = Some c
           \<and> manual_review_transactions d1 = manual_review_transactions d
           \<and> (u, t) \<in> cat_keys d1
           \<and> cat_keys d1 = insert (u, t) (cat_keys d)
           \<and> (distinct (map cat_key (transaction_categorizations d))
                \<longrightarrow> distinct (map cat_key (transaction_categorizations d1)))
           \<and> (\<forall>row\<in>set (transaction_categorizations d1). cat_key row = (u, t) \<longrightarrow>
                 c_category row = c \<and> c_plaid_data row = data \<and> c_created_at row = n)
           \<and> filter (\<lambda>row. cat_key row \<noteq> (u, t)) (transaction_categorizations d1)
               = filter (\<lambda>row. cat_key row \<noteq> (u, t)) (transaction_categorizations d)
           \<and> ((u, t) \<in> cat_keys d \<longrightarrow>
                 map cat_key (transaction_categorizations d1)
                   = map cat_key (transaction_categorizations d))
           \<and> ((u, t) \<notin> cat_keys d \<longrightarrow>
                 transaction_categorizations d1 = transaction_categorizations d @
                   [\<lparr>c_user_id = u, c_transaction_id = t, c_category = c, c_plaid_data = data,
                     c_created_at = n\<rparr>])"
proof -
  from upsert_Inr_ids [OF assms] obtain t c where
    ids: "tid = Some t" "cat = Some c" and nr: "\<not> r (UpsertCategorization u (Some t) (Some c) data)"
    by blast
  show ?thesis
  proof (cases "(u, t) \<in> cat_keys d")
    case True
    from assms have "d1 = d\<lparr>transaction_categorizations :=
                  map (overwrite c data n (u, t)) (transaction_categorizations d)\<rparr>"
      unfolding ids exec_upsert_present [where r = r, OF nr True] by simp
    then have c1: "transaction_categorizations d1 =
                  map (overwrite c data n (u, t)) (transaction_categorizations d)"
      and m1: "manual_review_transactions d1 = manual_review_transactions d"
      by simp_all
    have keys: "map cat_key (transaction_categorizations d1) = map cat_key (transaction_categorizations d)"
      unfolding c1 by (rule map_overwrite_keys)
    have k1: "cat_keys d1 = insert (u, t) (cat_keys d)"
      using True unfolding keys by blast
    have k2: "(u, t) \<in> cat_keys d1"
      using True unfolding keys .
    have dist: "distinct (map cat_key (transaction_categorizations d))
                \<longrightarrow> distinct (map cat_key (transaction_categorizations d1))"
      unfolding keys by blast
    have vals: "\<forall>row\<in>set (transaction_categorizations d1). cat_key row = (u, t) \<longrightarrow>
                 c_category row = c \<and> c_plaid_data row = data \<and> c_created_at row = n"
      unfolding c1 using map_overwrite_values by blast
    have others: "filter (\<lambda>row. cat_key row \<noteq> (u, t)) (transaction_categorizations d1)
               = filter (\<lambda>row. cat_key row \<noteq> (u, t)) (transaction_categorizations d)"
      unfolding c1 by (rule map_overwrite_others)
    from ids m1 k2 k1 dist vals others keys True show ?thesis
      by blast
  next
    case False
    from assms have "d1 = d\<lparr>transaction_categorizations := transaction_categorizations d @
                  [\<lparr>c_user_id = u, c_transaction_id = t, c_category = c, c_plaid_data = data,
                    c_created_at = n\<rparr>]\<rparr>"
      unfolding ids exec_upsert_absent [where r = r, OF nr False] by simp
    then have c1: "transaction_categorizations d1 = transaction_categorizations d @
                  [\<lparr>c_user_id = u, c_transaction_id = t, c_category = c, c_plaid_data = data,
                    c_created_at = n\<rparr>]"
      and m1: "manual_review_transactions d1 = manual_review_transactions d"
      by simp_all
    have k: "cat_key \<lparr>c_user_id = u, c_transaction_id = t, c_category = c, c_plaid_data = data,
                     c_created_at = n\<rparr> = (u, t)"
      by (simp add: cat_key_def)
    have others: "filter (\<lambda>row. cat_key row \<noteq> (u, t)) (transaction_categorizations d1)
               = filter (\<lambda>row. cat_key row \<noteq> (u, t)) (transaction_categorizations d)"
      unfolding c1 by (simp add: k)
    have old: "\<And>row. row \<in> set (transaction_categorizations d) \<Longrightarrow> cat_key row \<noteq> (u, t)"
      using False by force
    have vals: "\<forall>row\<in>set (transaction_categorizations d1). cat_key row = (u, t) \<longrightarrow>
                 c_category row = c \<and> c_plaid_data row = data \<and> c_created_at row = n"
      unfolding c1 using old by auto
    have k1: "cat_keys d1 = insert (u, t) (cat_keys d)"
      unfolding c1 by (simp add: k)
    have k2: "(u, t) \<in> cat_keys d1"
      unfolding k1 by simp
    have dist: "distinct (map cat_key (transaction_categorizations d))
                \<longrightarrow> distinct (map cat_key (transaction_categorizations d1))"
      unfolding c1 using False by (simp add: k)
    from ids m1 k2 k1 dist vals others c1 False show ?thesis
      by blast
  qed
qed

lemma delete_effect:
  assumes "exec r n (DeleteManualReview u (Some t)) d = Inr d2"
  shows "transaction_categorizations d2 = transaction_categorizations d
         \<and> manual_review_transactions d2
             = filter (\<lambda>row. review_key row \<noteq> (u, t)) (manual_review_transactions d)"
  using assms by (auto split: if_splits)

lemma categorize_success:
  assumes "categorize r n u req d = (d', Inr ())"
  obtains d1 t where
    "exec r n (UpsertCategorization u (req_transaction_id req) (req_category req)
       (req_plaid_data req)) d = Inr d1"
    "req_transaction_id req = Some t"
    "exec r n (DeleteManualReview u (Some t)) d1 = Inr d'"
proof -
  from assms obtain d1 where
    u1: "exec r n (UpsertCategorization u (req_transaction_id req) (req_category req)
       (req_plaid_data req)) d = Inr d1"
    and u2: "exec r n (DeleteManualReview u (req_transaction_id req)) d1 = Inr d'"
    by (auto simp: categorize_def split: sum.splits)
  from upsert_effect [OF u1] obtain t where "req_transaction_id req = Some t"
    by blast
  with u1 u2 that show ?thesis by simp
qed

lemma categorize_attainable:
  assumes "\<not> stmt_fails r (UpsertCategorization u (req_transaction_id req) (req_category req)
             (req_plaid_data req))"
    and "\<not> r (DeleteManualReview u (req_transaction_id req))"
  shows "snd (categorize r n u req d) = Inr ()"
proof -
  from exec_succeeds [OF assms(1), of n d] obtain d1 where
    u1: "exec r n (UpsertCategorization u (req_transaction_id req) (req_category req)
       (req_plaid_data req)) d = Inr d1"
    by blast
  have "\<not> stmt_fails r (DeleteManualReview u (req_transaction_id req))"
    using assms(2) by (simp add: stmt_fails_def)
  from exec_succeeds [OF this, of n d1] obtain d2 where
    "exec r n (DeleteManualReview u (req_transaction_id req)) d1 = Inr d2"
    by blast
  with u1 show ?thesis
    by (simp add: categorize_def)
qed

text \<open>A transaction whose key has a categorization is skipped by ingestion.\<close>

lemma dedup_filter_drops_categorized:
  assumes "(u, t) \<in> cat_keys d \<or> (u, t) \<in> review_keys d"
  shows "dedup_filter d u (filter (\<lambda>tx. transaction_id tx \<noteq> Some t) txs) = dedup_filter d u txs"
  unfolding dedup_filter_def filter_filter
  by (rule filter_cong) (use assms in \<open>auto split: option.splits\<close>)

lemma process_drops_categorized:
  assumes "(u, t) \<in> cat_keys d \<or> (u, t) \<in> review_keys d"
  shows "processTransactionsForCategorization r n (filter (\<lambda>tx. transaction_id tx \<noteq> Some t) txs) u d
         = processTransactionsForCategorization r n txs u d"
  by (simp only: process_closed dedup_filter_drops_categorized [OF assms])

section \<open>Preserving the invariant\<close>

lemma distinct_ids_one_decision:
  "distinct (map transaction_id txs) \<Longrightarrow> one_decision_per_id txs"
  unfolding one_decision_per_id_def
  by (metis distinct_map inj_on_def)

lemma keys_disjointI: "(\<And>row. row \<in> set rows \<Longrightarrow> f row \<notin> S) \<Longrightarrow> set (map f rows) \<inter> S = {}"
  by auto

lemma ingestion_steady_state:
  assumes inv: "steady_state d" and one: "one_decision_per_id txs"
  shows "steady_state (fst (processTransactionsForCategorization r n txs u d))"
proof -
  let ?d' = "fst (processTransactionsForCategorization r n txs u d)"
  from ingestion_effect [of r n txs u d] obtain ys zs where
    c: "transaction_categorizations ?d' = transaction_categorizations d @ ys"
    and m: "manual_review_transactions ?d' = manual_review_transactions d @ zs"
    and dy: "distinct (map cat_key ys)" and dz: "distinct (map review_key zs)"
    and ys: "\<forall>row\<in>set ys. cat_key row \<notin> cat_keys d \<and> cat_key row \<notin> review_keys d
           \<and> c_created_at row = n
           \<and> (\<exists>tx\<in>set (auto_survivors d u txs).
                 c_user_id row = u \<and> transaction_id tx = Some (c_transaction_id row)
                 \<and> classify tx = Auto (c_category row) \<and> c_plaid_data row = Some (raw_json tx))"
    and zs: "\<forall>row\<in>set zs. review_key row \<notin> cat_keys d \<and> review_key row \<notin> review_keys d
           \<and> m_created_at row = n
           \<and> (\<exists>tx\<in>set (manual_survivors d u txs).
                 m_user_id row = u \<and> transaction_id tx = Some (m_transaction_id row)
                 \<and> classify tx = Manual \<and> m_transaction_data row = raw_json tx)"
    by blast
  from inv have d_cat: "distinct (map cat_key (transaction_categorizations d))"
    and d_rev: "distinct (map review_key (manual_review_transactions d))"
    and disj: "cat_keys d \<inter> review_keys d = {}"
    by (simp_all add: steady_state_def)
  have y_old_cat: "set (map cat_key ys) \<inter> cat_keys d = {}"
    by (rule keys_disjointI) (use ys in blast)
  have y_old_rev: "set (map cat_key ys) \<inter> review_keys d = {}"
    by (rule keys_disjointI) (use ys in blast)
  have z_old_cat: "set (map review_key zs) \<inter> cat_keys d = {}"
    by (rule keys_disjointI) (use zs in blast)
  have z_old_rev: "set (map review_key zs) \<inter> review_keys d = {}"
    by (rule keys_disjointI) (use zs in blast)
  have y_z: "set (map cat_key ys) \<inter> set (map review_key zs) = {}"
  proof (rule keys_disjointI, rule notI)
    fix ry
    assume ry: "ry \<in> set ys" and "cat_key ry \<in> set (map review_key zs)"
    then have "cat_key ry \<in> review_key ` set zs"
      by simp
    then obtain rz where rz: "rz \<in> set zs" and same: "cat_key ry = review_key rz"
      by blast
    from ys ry obtain ta where ta: "ta \<in> set (auto_survivors d u txs)"
      "transaction_id ta = Some (c_transaction_id ry)"
      by blast
    from zs rz obtain tm where tm: "tm \<in> set (manual_survivors d u txs)"
      "transaction_id tm = Some (m_transaction_id rz)"
      by blast
    from same have "c_transaction_id ry = m_transaction_id rz"
      by (simp add: cat_key_def review_key_def)
    with ta(2) tm(2) have ids: "transaction_id ta = transaction_id tm"
      by simp
    from ta(1) have a1: "ta \<in> set txs" "is_auto ta"
      by (auto simp: auto_survivors_def intro: survivor_in_batch)
    from tm(1) have m1: "tm \<in> set txs" "\<not> is_auto tm"
      by (auto simp: manual_survivors_def intro: survivor_in_batch)
    from one a1(1) m1(1) ids have "is_auto ta = is_auto tm"
      unfolding one_decision_per_id_def by blast
    with a1(2) m1(2) show False by simp
  qed
  have 1: "distinct (map cat_key (transaction_categorizations ?d'))"
    unfolding c using d_cat dy y_old_cat by (simp add: Int_commute)
  have 2: "distinct (map review_key (manual_review_transactions ?d'))"
    unfolding m using d_rev dz z_old_rev by (simp add: Int_commute)
  have 3: "cat_keys ?d' \<inter> review_keys ?d' = {}"
  proof -
    have "cat_keys ?d' = cat_keys d \<union> set (map cat_key ys)"
      unfolding c by simp
    moreover have "review_keys ?d' = review_keys d \<union> set (map review_key zs)"
      unfolding m by simp
    ultimately show ?thesis
      using disj y_old_rev z_old_cat y_z by blast
  qed
  from 1 2 3 show ?thesis
    by (simp add: steady_state_def)
qed

lemma categorize_steady_state:
  assumes inv: "steady_state d" and ok: "categorize r n u req d = (d', Inr ())"
  shows "steady_state d'"
proof -
  from ok obtain d1 t where
    up: "exec r n (UpsertCategorization u (req_transaction_id req) (req_category req)
           (req_plaid_data req)) d = Inr d1"
    and t: "req_transaction_id req = Some t"
    and del: "exec r n (DeleteManualReview u (Some t)) d1 = Inr d'"
    by (rule categorize_success)
  from inv have d_cat: "distinct (map cat_key (transaction_categorizations d))"
    and d_rev: "distinct (map review_key (manual_review_transactions d))"
    and disj: "cat_keys d \<inter> review_keys d = {}"
    by (simp_all add: steady_state_def)
  from upsert_effect [OF up] t d_cat have
    u1: "manual_review_transactions d1 = manual_review_transactions d"
        "cat_keys d1 = insert (u, t) (cat_keys d)"
        "distinct (map cat_key (transaction_categorizations d1))"
    by auto
  from delete_effect [OF del] have
    dl: "transaction_categorizations d' = transaction_categorizations d1"
        "manual_review_transactions d'
           = filter (\<lambda>row. review_key row \<noteq> (u, t)) (manual_review_transactions d1)"
    by simp_all
  have 1: "distinct (map cat_key (transaction_categorizations d'))"
    unfolding dl(1) by (rule u1(3))
  have 2: "distinct (map review_key (manual_review_transactions d'))"
    unfolding dl(2) u1(1) using d_rev by (rule distinct_map_filter)
  have rk: "review_keys d' = review_keys d - {(u, t)}"
    unfolding dl(2) u1(1) by auto
  have ck: "cat_keys d' = insert (u, t) (cat_keys d)"
    unfolding dl(1) by (rule u1(2))
  have 3: "cat_keys d' \<inter> review_keys d' = {}"
    unfolding rk ck using disj by blast
  from 1 2 3 show ?thesis
    by (simp add: steady_state_def)
qed

lemma auto_survivors_filter:
  "auto_survivors d u txs =
     filter (\<lambda>tx. is_auto tx
                \<and> (case transaction_id tx of
                      None \<Rightarrow> True
                    | Some t \<Rightarrow> (u, t) \<notin> cat_keys d \<and> (u, t) \<notin> review_keys d)) txs"
  unfolding auto_survivors_def dedup_filter_def filter_filter
  by (rule filter_cong) (auto split: option.splits)

text \<open>
  The batch hypothesis of \<open>ingestion_steady_state\<close> cannot be dropped. A batch outside the
  input contract, delivering the id \<open>t1\<close> once with the code \<open>INCOME\<close> and once with
  \<open>FOOD_AND_DRINK\<close>, passes the dedup filter twice and leaves \<open>t1\<close> in both tables.
\<close>

lemma two_codes_one_id_example:
  "steady_state empty_db
   \<and> \<not> one_decision_per_id [tx_income, tx_food_t1]
   \<and> processTransactionsForCategorization no_rejects 5 [tx_income, tx_food_t1] 1 empty_db
       = (db_t1_both, Inr (1, 1))
   \<and> \<not> steady_state db_t1_both"
  by (simp add: engine_defs example_defs string_defs steady_state_def one_decision_per_id_def)

text \<open>
  Explicit categorization keeps the invariant unless its upsert is accepted and its delete
  refused: a refused upsert writes nothing, and an accepted delete ends the operation
  successfully.
\<close>

lemma categorize_upsert_refused:
  assumes "stmt_fails r (UpsertCategorization u (req_transaction_id req) (req_category req)
             (req_plaid_data req))"
  shows "fst (categorize r n u req d) = d"
proof -
  from exec_fails [OF assms, of n d] obtain e where
    "exec r n (UpsertCategorization u (req_transaction_id req) (req_category req)
       (req_plaid_data req)) d = Inl e"
    by blast
  then show ?thesis
    by (simp add: categorize_def)
qed

lemma categorize_delete_accepted_steady_state:
  assumes inv: "steady_state d"
    and del: "\<not> r (DeleteManualReview u (req_transaction_id req))"
  shows "steady_state (fst (categorize r n u req d))"
proof (cases "stmt_fails r (UpsertCategorization u (req_transaction_id req) (req_category req)
                (req_plaid_data req))")
  case True
  from categorize_upsert_refused [OF True, of n d] inv show ?thesis
    by simp
next
  case False
  from False del have "snd (categorize r n u req d) = Inr ()"
    by (rule categorize_attainable)
  then have "categorize r n u req d = (fst (categorize r n u req d), Inr ())"
    by (metis prod.collapse)
  with inv show ?thesis
    by (rule categorize_steady_state)
qed

section \<open>Properties of the classifier\<close>

text \<open>
  C4. A transaction whose provider category code is absent or not in the rule table is
  decided manual. A code in the rule table is decided auto, with the display category the
  specification describes (underscores to spaces, lowercase, first letter of each word
  uppercase), which is what the source's replace, split, map and join chain computes on every
  string. \<open>TRANSFER_IN\<close> gives \<open>Transfer In\<close>, \<open>ATM_FEES\<close> gives \<open>Atm Fees\<close>, and
  \<open>FOOD_AND_DRINK\<close> is decided manual.
\<close>

theorem classifier_decision:
  "(pfc_primary tx = None \<longrightarrow> classify tx = Manual)
   \<and> (\<forall>code. pfc_primary tx = Some code \<and> code \<notin> set AUTO_CATEGORIZE_PLAID_CATEGORIES
          \<longrightarrow> classify tx = Manual)
   \<and> (\<forall>code. pfc_primary tx = Some code \<and> code \<in> set AUTO_CATEGORIZE_PLAID_CATEGORIES
          \<longrightarrow> classify tx = Auto (cleanCategory code)
              \<and> cleanCategory code = display_category_spec code)
   \<and> cleanCategory ''TRANSFER_IN'' = ''Transfer In''
   \<and> cleanCategory ''ATM_FEES'' = ''Atm Fees''
   \<and> (pfc_primary tx = Some ''FOOD_AND_DRINK'' \<longrightarrow> classify tx = Manual)"
proof -
  have absent: "pfc_primary tx = None \<longrightarrow> classify tx = Manual"
    by (simp add: classify_def)
  have unknown: "\<forall>code. pfc_primary tx = Some code \<and> code \<notin> set AUTO_CATEGORIZE_PLAID_CATEGORIES
                   \<longrightarrow> classify tx = Manual"
    by (simp add: classify_def)
  have nonempty: "\<And>code. code \<in> set AUTO_CATEGORIZE_PLAID_CATEGORIES \<Longrightarrow> code \<noteq> []"
    by (auto simp: AUTO_CATEGORIZE_PLAID_CATEGORIES_def)
  have known: "\<forall>code. pfc_primary tx = Some code \<and> code \<in> set AUTO_CATEGORIZE_PLAID_CATEGORIES
                 \<longrightarrow> classify tx = Auto (cleanCategory code)
                     \<and> cleanCategory code = display_category_spec code"
    using nonempty by (auto simp: classify_def cleanCategory_refines)
  have transfer: "cleanCategory ''TRANSFER_IN'' = ''Transfer In''"
    by (simp add: string_defs)
  have atm: "cleanCategory ''ATM_FEES'' = ''Atm Fees''"
    by (simp add: string_defs)
  have food: "pfc_primary tx = Some ''FOOD_AND_DRINK'' \<longrightarrow> classify tx = Manual"
    by (simp add: classify_def AUTO_CATEGORIZE_PLAID_CATEGORIES_def)
  from absent unknown known transfer atm food show ?thesis by blast
qed

theorem classifier_decision_witness:
  "classify tx_no_code = Manual
   \<and> classify tx_food = Manual
   \<and> classify tx_transfer = Auto ''Transfer In''
   \<and> display_category_spec ''TRANSFER_IN'' = ''Transfer In''"
proof -
  have a: "pfc_primary tx_no_code = None"
    by (simp add: tx_no_code_def)
  have b: "pfc_primary tx_food = Some ''FOOD_AND_DRINK''"
    by (simp add: tx_food_def)
  have c: "pfc_primary tx_transfer = Some ''TRANSFER_IN''
           \<and> ''TRANSFER_IN'' \<in> set AUTO_CATEGORIZE_PLAID_CATEGORIES"
    by (simp add: tx_transfer_def AUTO_CATEGORIZE_PLAID_CATEGORIES_def)
  from a classifier_decision [of tx_no_code] have 1: "classify tx_no_code = Manual"
    by blast
  from b classifier_decision [of tx_food] have 2: "classify tx_food = Manual"
    by blast
  from c classifier_decision [of tx_transfer]
  have 3: "classify tx_transfer = Auto (cleanCategory ''TRANSFER_IN'')
           \<and> cleanCategory ''TRANSFER_IN'' = display_category_spec ''TRANSFER_IN''
           \<and> cleanCategory ''TRANSFER_IN'' = ''Transfer In''"
    by blast
  from 3 have 4: "display_category_spec ''TRANSFER_IN'' = ''Transfer In''"
    by metis
  from 1 2 3 4 show ?thesis by metis
qed

section \<open>Properties of the ingestion step\<close>

text \<open>
  C2. Every transaction that passes the dedup filter gets exactly one of the two decisions:
  the loop leaves the auto-decided survivors, as their queries, in
  \<open>autoCategorizationPromises\<close> and the manual-decided survivors in
  \<open>manualReviewTransactions\<close>, each survivor in exactly one of the two. The counts a call
  returns add up to the size of the deduplicated set, and a call none of whose writes is
  refused does return counts.
\<close>

theorem partition_complete:
  "classify_loop (categorizedIds d u) (manualReviewIds d u) u txs ([], [])
     = (map (write_for u) (auto_survivors d u txs), manual_survivors d u txs)
   \<and> (\<forall>tx\<in>set (dedup_filter d u txs).
         ((\<exists>c. classify tx = Auto c) \<and> tx \<in> set (auto_survivors d u txs)
            \<and> tx \<notin> set (manual_survivors d u txs))
         \<or> (classify tx = Manual \<and> tx \<in> set (manual_survivors d u txs)
            \<and> tx \<notin> set (auto_survivors d u txs)))
   \<and> length (auto_survivors d u txs) + length (manual_survivors d u txs)
       = length (dedup_filter d u txs)
   \<and> (\<forall>a m. snd (processTransactionsForCategorization r n txs u d) = Inr (a, m)
         \<longrightarrow> a + m = length (dedup_filter d u txs))
   \<and> ((\<forall>tx\<in>set (dedup_filter d u txs). \<not> stmt_fails r (write_for u tx))
         \<longrightarrow> (\<exists>a m. snd (processTransactionsForCategorization r n txs u d) = Inr (a, m)
                   \<and> a + m = length (dedup_filter d u txs)))"
proof -
  have loop: "classify_loop (categorizedIds d u) (manualReviewIds d u) u txs ([], [])
     = (map (write_for u) (auto_survivors d u txs), manual_survivors d u txs)"
    by (simp only: classify_loop_dedup auto_survivors_def manual_survivors_def)
  have one: "\<forall>tx\<in>set (dedup_filter d u txs).
         ((\<exists>c. classify tx = Auto c) \<and> tx \<in> set (auto_survivors d u txs)
            \<and> tx \<notin> set (manual_survivors d u txs))
         \<or> (classify tx = Manual \<and> tx \<in> set (manual_survivors d u txs)
            \<and> tx \<notin> set (auto_survivors d u txs))"
  proof
    fix tx
    assume "tx \<in> set (dedup_filter d u txs)"
    then show "((\<exists>c. classify tx = Auto c) \<and> tx \<in> set (auto_survivors d u txs)
            \<and> tx \<notin> set (manual_survivors d u txs))
         \<or> (classify tx = Manual \<and> tx \<in> set (manual_survivors d u txs)
            \<and> tx \<notin> set (auto_survivors d u txs))"
      by (cases "classify tx") (simp_all add: auto_survivors_def manual_survivors_def is_auto_def)
  qed
  have counts: "\<forall>a m. snd (processTransactionsForCategorization r n txs u d) = Inr (a, m)
         \<longrightarrow> a + m = length (dedup_filter d u txs)"
    using process_snd_Inr [of r n txs u d] survivors_length [of d u txs] by auto
  have returns: "(\<forall>tx\<in>set (dedup_filter d u txs). \<not> stmt_fails r (write_for u tx))
         \<longrightarrow> (\<exists>a m. snd (processTransactionsForCategorization r n txs u d) = Inr (a, m)
                   \<and> a + m = length (dedup_filter d u txs))"
    using process_snd_ok [of d u txs r n] survivors_length [of d u txs] by auto
  from loop one survivors_length [of d u txs] counts returns show ?thesis
    by blast
qed

theorem partition_complete_witness:
  "\<exists>a m. snd (processTransactionsForCategorization no_rejects 5 [tx_income, tx_food] 1 empty_db)
            = Inr (a, m)
        \<and> a + m = 2"
proof -
  have s: "dedup_filter empty_db 1 [tx_income, tx_food] = [tx_income, tx_food]"
    by (simp add: dedup_filter_def example_defs)
  have h: "\<forall>tx\<in>set (dedup_filter empty_db 1 [tx_income, tx_food]).
             \<not> stmt_fails no_rejects (write_for 1 tx)"
    unfolding s by (simp add: engine_defs example_defs)
  from partition_complete [of empty_db 1 "[tx_income, tx_food]" no_rejects 5] h
  have "\<exists>a m. snd (processTransactionsForCategorization no_rejects 5 [tx_income, tx_food] 1 empty_db)
            = Inr (a, m)
        \<and> a + m = length (dedup_filter empty_db 1 [tx_income, tx_food])"
    by blast
  then show ?thesis
    unfolding s by (simp add: numeral_2_eq_2)
qed

text \<open>
  C3. The transactions the loop classifies are exactly those the dedup filter of the
  specification selects: looping over the batch with the two id sets read from the tables is
  looping over the filtered batch with nothing to skip. A transaction outside that subset is
  not classified, persisted or counted: the call has the outcome it has on the subset alone,
  the rows under the key of a skipped transaction are the rows that were there, and the
  returned counts add up to the size of the subset.
\<close>

theorem dedup_filter_exact:
  "classify_loop (categorizedIds d u) (manualReviewIds d u) u txs acc
     = classify_loop [] [] u (dedup_filter d u txs) acc
   \<and> processTransactionsForCategorization r n txs u d
     = processTransactionsForCategorization r n (dedup_filter d u txs) u d
   \<and> (\<forall>tx\<in>set txs. tx \<notin> set (dedup_filter d u txs) \<longrightarrow>
         (\<exists>t. transaction_id tx = Some t
            \<and> ((u, t) \<in> cat_keys d \<or> (u, t) \<in> review_keys d)
            \<and> filter (\<lambda>row. cat_key row = (u, t))
                 (transaction_categorizations (fst (processTransactionsForCategorization r n txs u d)))
              = filter (\<lambda>row. cat_key row = (u, t)) (transaction_categorizations d)
            \<and> filter (\<lambda>row. review_key row = (u, t))
                 (manual_review_transactions (fst (processTransactionsForCategorization r n txs u d)))
              = filter (\<lambda>row. review_key row = (u, t)) (manual_review_transactions d)))
   \<and> (\<forall>a m. snd (processTransactionsForCategorization r n txs u d) = Inr (a, m)
         \<longrightarrow> a + m = length (dedup_filter d u txs))"
proof -
  obtain autos manuals where acc: "acc = (autos, manuals)"
    by (cases acc) blast
  have nohas: "\<And>xs. filter (\<lambda>tx. \<not> (has [] (transaction_id tx) \<or> has [] (transaction_id tx))) xs = xs"
    by (simp add: has_def split: option.splits)
  have loop: "classify_loop (categorizedIds d u) (manualReviewIds d u) u txs acc
     = classify_loop [] [] u (dedup_filter d u txs) acc"
    unfolding acc by (simp only: classify_loop_closed skip_test_dedup nohas)
  have same: "processTransactionsForCategorization r n txs u d
     = processTransactionsForCategorization r n (dedup_filter d u txs) u d"
    by (simp only: process_dedup)
  from ingestion_effect [of r n txs u d] obtain ys zs where
    e: "transaction_categorizations (fst (processTransactionsForCategorization r n txs u d))
          = transaction_categorizations d @ ys"
       "manual_review_transactions (fst (processTransactionsForCategorization r n txs u d))
          = manual_review_transactions d @ zs"
       "\<forall>row\<in>set ys. cat_key row \<notin> cat_keys d \<and> cat_key row \<notin> review_keys d"
       "\<forall>row\<in>set zs. review_key row \<notin> cat_keys d \<and> review_key row \<notin> review_keys d"
    by blast
  have skipped: "\<forall>tx\<in>set txs. tx \<notin> set (dedup_filter d u txs) \<longrightarrow>
         (\<exists>t. transaction_id tx = Some t
            \<and> ((u, t) \<in> cat_keys d \<or> (u, t) \<in> review_keys d)
            \<and> filter (\<lambda>row. cat_key row = (u, t))
                 (transaction_categorizations (fst (processTransactionsForCategorization r n txs u d)))
              = filter (\<lambda>row. cat_key row = (u, t)) (transaction_categorizations d)
            \<and> filter (\<lambda>row. review_key row = (u, t))
                 (manual_review_transactions (fst (processTransactionsForCategorization r n txs u d)))
              = filter (\<lambda>row. review_key row = (u, t)) (manual_review_transactions d))"
  proof (intro ballI impI)
    fix tx
    assume "tx \<in> set txs" and "tx \<notin> set (dedup_filter d u txs)"
    from not_survivor [OF this] obtain t where
      t: "transaction_id tx = Some t" "(u, t) \<in> cat_keys d \<or> (u, t) \<in> review_keys d"
      by blast
    from t(2) e(3) have "filter (\<lambda>row. cat_key row = (u, t)) ys = []"
      by (auto simp: filter_empty_conv)
    moreover from t(2) e(4) have "filter (\<lambda>row. review_key row = (u, t)) zs = []"
      by (auto simp: filter_empty_conv)
    ultimately show "\<exists>t. transaction_id tx = Some t
            \<and> ((u, t) \<in> cat_keys d \<or> (u, t) \<in> review_keys d)
            \<and> filter (\<lambda>row. cat_key row = (u, t))
                 (transaction_categorizations (fst (processTransactionsForCategorization r n txs u d)))
              = filter (\<lambda>row. cat_key row = (u, t)) (transaction_categorizations d)
            \<and> filter (\<lambda>row. review_key row = (u, t))
                 (manual_review_transactions (fst (processTransactionsForCategorization r n txs u d)))
              = filter (\<lambda>row. review_key row = (u, t)) (manual_review_transactions d)"
      using t by (simp add: e(1,2))
  qed
  have counts: "\<forall>a m. snd (processTransactionsForCategorization r n txs u d) = Inr (a, m)
         \<longrightarrow> a + m = length (dedup_filter d u txs)"
    using process_snd_Inr [of r n txs u d] survivors_length [of d u txs] by auto
  from loop same skipped counts show ?thesis
    by blast
qed

theorem dedup_filter_exact_witness:
  "dedup_filter db_t1_categorized 1 [tx_income, tx_transfer] = [tx_transfer]
   \<and> processTransactionsForCategorization no_rejects 5 [tx_income, tx_transfer] 1 db_t1_categorized
     = processTransactionsForCategorization no_rejects 5 [tx_transfer] 1 db_t1_categorized
   \<and> filter (\<lambda>row. cat_key row = (1, ''t1''))
       (transaction_categorizations
          (fst (processTransactionsForCategorization no_rejects 5 [tx_income, tx_transfer] 1
                  db_t1_categorized)))
     = transaction_categorizations db_t1_categorized"
proof -
  have s: "dedup_filter db_t1_categorized 1 [tx_income, tx_transfer] = [tx_transfer]"
    by (simp add: dedup_filter_def cat_key_def example_defs)
  have mem: "tx_income \<in> set [tx_income, tx_transfer]"
    and out: "tx_income \<notin> set (dedup_filter db_t1_categorized 1 [tx_income, tx_transfer])"
    and tid: "transaction_id tx_income = Some ''t1''"
    unfolding s by (simp_all add: example_defs)
  have old: "filter (\<lambda>row. cat_key row = (1, ''t1'')) (transaction_categorizations db_t1_categorized)
             = transaction_categorizations db_t1_categorized"
    by (simp add: cat_key_def example_defs)
  note inst = dedup_filter_exact [of db_t1_categorized 1 "[tx_income, tx_transfer]" "([], [])"
      no_rejects 5]
  from inst have same:
    "processTransactionsForCategorization no_rejects 5 [tx_income, tx_transfer] 1 db_t1_categorized
     = processTransactionsForCategorization no_rejects 5 [tx_transfer] 1 db_t1_categorized"
    unfolding s by blast
  from inst mem out tid have
    "filter (\<lambda>row. cat_key row = (1, ''t1''))
       (transaction_categorizations
          (fst (processTransactionsForCategorization no_rejects 5 [tx_income, tx_transfer] 1
                  db_t1_categorized)))
     = filter (\<lambda>row. cat_key row = (1, ''t1'')) (transaction_categorizations db_t1_categorized)"
    by fastforce
  with s same old show ?thesis by simp
qed

text \<open>
  C1. When a call of the ingestion step has returned counts, so that every write of the run
  was accepted and persisted, a second call on the identical batch, started from the tables
  the first call left, changes neither table and returns \<open>autoCount = 0\<close> and
  \<open>manualCount = 0\<close>, whatever the clock and the persistence layer do the second time.
\<close>

theorem ingestion_idempotent:
  assumes "processTransactionsForCategorization r n txs u d = (d1, Inr (a, m))"
  shows "processTransactionsForCategorization r' n' txs u d1 = (d1, Inr (0, 0))"
proof -
  have d1: "d1 = fst (processTransactionsForCategorization r n txs u d)"
    and res: "snd (processTransactionsForCategorization r n txs u d) = Inr (a, m)"
    using assms by simp_all
  from process_snd_Inr [OF res]
  have ok: "\<forall>tx\<in>set (dedup_filter d u txs). \<not> stmt_fails r (write_for u tx)"
    by blast
  have known: "\<exists>t. transaction_id tx = Some t \<and> ((u, t) \<in> cat_keys d1 \<or> (u, t) \<in> review_keys d1)"
    if tx: "tx \<in> set txs" for tx
  proof (cases "tx \<in> set (dedup_filter d u txs)")
    case False
    from not_survivor [OF tx False] obtain t where
      "transaction_id tx = Some t" "(u, t) \<in> cat_keys d \<or> (u, t) \<in> review_keys d"
      by blast
    with ingestion_keys_mono [of d r n txs u] show ?thesis
      unfolding d1 by blast
  next
    case True
    with ok have nf: "\<not> stmt_fails r (write_for u tx)" by blast
    from True consider "tx \<in> set (auto_survivors d u txs)" | "tx \<in> set (manual_survivors d u txs)"
      by (auto simp: survivors_split)
    then show ?thesis
    proof cases
      case 1
      from auto_write_persisted [OF 1 nf, of n] show ?thesis
        unfolding d1 by blast
    next
      case 2
      have "\<forall>tx\<in>set (auto_survivors d u txs). \<not> stmt_fails r (write_for u tx)"
        using ok by (simp add: survivors_split)
      from manual_write_persisted [OF 2 nf this, of n] show ?thesis
        unfolding d1 by blast
    qed
  qed
  have "dedup_filter d1 u txs = []"
    by (rule dedup_filter_empty) (rule known)
  then show ?thesis
    by (rule process_nothing_new)
qed

theorem ingestion_idempotent_witness:
  "processTransactionsForCategorization no_rejects 5 [tx_income, tx_food] 1 empty_db
     = (\<lparr>transaction_categorizations =
           [\<lparr>c_user_id = 1, c_transaction_id = ''t1'', c_category = ''Income'',
             c_plaid_data = Some ''{t1}'', c_created_at = 5\<rparr>],
         manual_review_transactions =
           [\<lparr>m_user_id = 1, m_transaction_id = ''t3'', m_transaction_data = ''{t3}'',
             m_created_at = 5\<rparr>]\<rparr>,
        Inr (1, 1))
   \<and> processTransactionsForCategorization no_rejects 6 [tx_income, tx_food] 1
       \<lparr>transaction_categorizations =
           [\<lparr>c_user_id = 1, c_transaction_id = ''t1'', c_category = ''Income'',
             c_plaid_data = Some ''{t1}'', c_created_at = 5\<rparr>],
         manual_review_transactions =
           [\<lparr>m_user_id = 1, m_transaction_id = ''t3'', m_transaction_data = ''{t3}'',
             m_created_at = 5\<rparr>]\<rparr>
     = (\<lparr>transaction_categorizations =
           [\<lparr>c_user_id = 1, c_transaction_id = ''t1'', c_category = ''Income'',
             c_plaid_data = Some ''{t1}'', c_created_at = 5\<rparr>],
         manual_review_transactions =
           [\<lparr>m_user_id = 1, m_transaction_id = ''t3'', m_transaction_data = ''{t3}'',
             m_created_at = 5\<rparr>]\<rparr>,
        Inr (0, 0))"
proof -
  have first: "processTransactionsForCategorization no_rejects 5 [tx_income, tx_food] 1 empty_db
     = (\<lparr>transaction_categorizations =
           [\<lparr>c_user_id = 1, c_transaction_id = ''t1'', c_category = ''Income'',
             c_plaid_data = Some ''{t1}'', c_created_at = 5\<rparr>],
         manual_review_transactions =
           [\<lparr>m_user_id = 1, m_transaction_id = ''t3'', m_transaction_data = ''{t3}'',
             m_created_at = 5\<rparr>]\<rparr>,
        Inr (1, 1))"
    by (simp add: engine_defs example_defs string_defs)
  from first ingestion_idempotent [OF first, of no_rejects 6] show ?thesis
    by simp
qed

text \<open>
  C10. A \<open>transaction_id\<close> that is new to both tables is not collapsed by the dedup filter
  when it occurs several times in one batch: every occurrence survives, is classified and is
  counted, so the counts a call returns are at least the number of occurrences, and can
  exceed the number of distinct ids of the batch (a batch holding one new id twice returns
  the sum 2). Each table still ends with at most one row under the key, and a table without
  repeated keys stays without repeated keys.
\<close>

theorem batch_duplicates_not_collapsed:
  assumes "(u, t) \<notin> cat_keys d" and "(u, t) \<notin> review_keys d"
  shows "filter (\<lambda>tx. transaction_id tx = Some t) (dedup_filter d u txs)
           = filter (\<lambda>tx. transaction_id tx = Some t) txs
         \<and> (\<forall>a m. snd (processTransactionsForCategorization r n txs u d) = Inr (a, m)
               \<longrightarrow> length (filter (\<lambda>tx. transaction_id tx = Some t) txs) \<le> a + m)
         \<and> length (filter (\<lambda>row. cat_key row = (u, t))
              (transaction_categorizations (fst (processTransactionsForCategorization r n txs u d))))
             \<le> 1
         \<and> length (filter (\<lambda>row. review_key row = (u, t))
              (manual_review_transactions (fst (processTransactionsForCategorization r n txs u d))))
             \<le> 1
         \<and> (unique_keys d \<longrightarrow> unique_keys (fst (processTransactionsForCategorization r n txs u d)))
         \<and> (\<exists>a m. snd (processTransactionsForCategorization no_rejects 0 [tx_income, tx_income] 1
                           empty_db) = Inr (a, m)
                 \<and> length (remdups (map transaction_id [tx_income, tx_income])) < a + m)"
proof -
  let ?d' = "fst (processTransactionsForCategorization r n txs u d)"
  have all: "filter (\<lambda>tx. transaction_id tx = Some t) (dedup_filter d u txs)
           = filter (\<lambda>tx. transaction_id tx = Some t) txs"
    unfolding dedup_filter_def filter_filter
    by (rule filter_cong) (use assms in auto)
  have "length (filter (\<lambda>tx. transaction_id tx = Some t) (dedup_filter d u txs))
          \<le> length (dedup_filter d u txs)"
    by (rule length_filter_le)
  then have counted: "\<forall>a m. snd (processTransactionsForCategorization r n txs u d) = Inr (a, m)
               \<longrightarrow> length (filter (\<lambda>tx. transaction_id tx = Some t) txs) \<le> a + m"
    using process_snd_Inr [of r n txs u d] survivors_length [of d u txs] all by auto
  from ingestion_effect [of r n txs u d] obtain ys zs where
    e: "transaction_categorizations ?d' = transaction_categorizations d @ ys"
       "manual_review_transactions ?d' = manual_review_transactions d @ zs"
       "distinct (map cat_key ys)" "distinct (map review_key zs)"
       "\<forall>row\<in>set ys. cat_key row \<notin> cat_keys d \<and> cat_key row \<notin> review_keys d"
       "\<forall>row\<in>set zs. review_key row \<notin> cat_keys d \<and> review_key row \<notin> review_keys d"
    by blast
  have one_cat: "length (filter (\<lambda>row. cat_key row = (u, t)) (transaction_categorizations ?d')) \<le> 1"
    using filter_key_absent [of "(u, t)" cat_key "transaction_categorizations d"] assms(1)
      filter_key_distinct [OF e(3), of "(u, t)"]
    by (simp add: e(1))
  have one_review: "length (filter (\<lambda>row. review_key row = (u, t)) (manual_review_transactions ?d')) \<le> 1"
    using filter_key_absent [of "(u, t)" review_key "manual_review_transactions d"] assms(2)
      filter_key_distinct [OF e(4), of "(u, t)"]
    by (simp add: e(2))
  have uniq: "unique_keys d \<longrightarrow> unique_keys ?d'"
    using e(3-6) by (auto simp: unique_keys_def e(1,2))
  have ex: "\<exists>a m. snd (processTransactionsForCategorization no_rejects 0 [tx_income, tx_income] 1
                           empty_db) = Inr (a, m)
                 \<and> length (remdups (map transaction_id [tx_income, tx_income])) < a + m"
    by (simp add: engine_defs example_defs)
  from all counted one_cat one_review uniq ex show ?thesis
    by blast
qed

theorem batch_duplicates_not_collapsed_witness:
  "(1, ''t1'') \<notin> cat_keys empty_db \<and> (1, ''t1'') \<notin> review_keys empty_db
   \<and> filter (\<lambda>tx. transaction_id tx = Some ''t1'') (dedup_filter empty_db 1 [tx_income, tx_income])
       = [tx_income, tx_income]
   \<and> snd (processTransactionsForCategorization no_rejects 0 [tx_income, tx_income] 1 empty_db)
       = Inr (2, 0)
   \<and> length (filter (\<lambda>row. cat_key row = (1, ''t1''))
        (transaction_categorizations
           (fst (processTransactionsForCategorization no_rejects 0 [tx_income, tx_income] 1
                   empty_db))))
       \<le> 1"
proof -
  have fresh: "(1, ''t1'') \<notin> cat_keys empty_db" "(1, ''t1'') \<notin> review_keys empty_db"
    by (simp_all add: example_defs)
  have run: "snd (processTransactionsForCategorization no_rejects 0 [tx_income, tx_income] 1 empty_db)
               = Inr (2, 0)"
    by (simp add: engine_defs example_defs string_defs)
  have f: "filter (\<lambda>tx. transaction_id tx = Some ''t1'') [tx_income, tx_income]
             = [tx_income, tx_income]"
    by (simp add: example_defs)
  note inst = batch_duplicates_not_collapsed [OF fresh, of "[tx_income, tx_income]" no_rejects 0]
  from inst f have 1: "filter (\<lambda>tx. transaction_id tx = Some ''t1'')
                         (dedup_filter empty_db 1 [tx_income, tx_income])
                       = [tx_income, tx_income]"
    by simp
  from inst have 2: "length (filter (\<lambda>row. cat_key row = (1, ''t1''))
        (transaction_categorizations
           (fst (processTransactionsForCategorization no_rejects 0 [tx_income, tx_income] 1
                   empty_db)))) \<le> 1"
    by blast
  from fresh 1 2 run show ?thesis by blast
qed

text \<open>
  C5. The ingestion-time insert of a categorization does nothing on conflict: a statement
  whose key has a row returns the tables as they are, and a whole ingestion call leaves every
  categorization row that existed before it in place and unchanged (the table only grows at
  its end, and the rows under an existing key are the rows that were there). A new
  rule-matching transaction of the same batch, if its write is accepted, gets a new
  categorization under its key, made now from a transaction of the batch with that id, and
  is counted: it is one of the auto-decided survivors, and the \<open>autoCount\<close> a call returns is
  exactly their number, the number of rule-matching records of the batch whose id has a row
  in neither table. A call none of whose writes is refused returns that count. For tables
  holding a categorization of \<open>t1\<close> and the batch of \<open>t1\<close> and a new \<open>TRANSFER_IN\<close>
  transaction \<open>t2\<close>: the row of \<open>t1\<close> is unchanged, \<open>t2\<close> is categorized as
  \<open>Transfer In\<close>, and \<open>autoCount = 1\<close>.
\<close>

theorem auto_upsert_first_write_wins:
  "((u, t) \<in> cat_keys d \<and> \<not> r (InsertCategorization u (Some t) cat data)
      \<longrightarrow> exec r n (InsertCategorization u (Some t) cat data) d = Inr d)
   \<and> (\<exists>ys. transaction_categorizations (fst (processTransactionsForCategorization r n txs u d))
              = transaction_categorizations d @ ys)
   \<and> (\<forall>k\<in>cat_keys d.
         filter (\<lambda>row. cat_key row = k)
           (transaction_categorizations (fst (processTransactionsForCategorization r n txs u d)))
         = filter (\<lambda>row. cat_key row = k) (transaction_categorizations d))
   \<and> (\<forall>tx\<in>set txs. \<forall>t'. transaction_id tx = Some t' \<and> (u, t') \<notin> cat_keys d
         \<and> (u, t') \<notin> review_keys d \<and> is_auto tx \<and> \<not> r (write_for u tx)
         \<longrightarrow> (\<exists>row\<in>set (transaction_categorizations
                            (fst (processTransactionsForCategorization r n txs u d))).
                cat_key row = (u, t') \<and> row \<notin> set (transaction_categorizations d)
                \<and> c_created_at row = n
                \<and> (\<exists>tx'\<in>set txs. transaction_id tx' = Some t'
                      \<and> classify tx' = Auto (c_category row)
                      \<and> c_plaid_data row = Some (raw_json tx')))
             \<and> tx \<in> set (auto_survivors d u txs)
             \<and> (\<forall>a m. snd (processTransactionsForCategorization r n txs u d) = Inr (a, m)
                   \<longrightarrow> 1 \<le> a))
   \<and> (\<forall>a m. snd (processTransactionsForCategorization r n txs u d) = Inr (a, m)
         \<longrightarrow> a = length (auto_survivors d u txs))
   \<and> auto_survivors d u txs
       = filter (\<lambda>tx. is_auto tx
                    \<and> (case transaction_id tx of
                          None \<Rightarrow> True
                        | Some t' \<Rightarrow> (u, t') \<notin> cat_keys d \<and> (u, t') \<notin> review_keys d)) txs
   \<and> ((\<forall>tx\<in>set (dedup_filter d u txs). \<not> stmt_fails r (write_for u tx))
         \<longrightarrow> (\<exists>m. snd (processTransactionsForCategorization r n txs u d)
                     = Inr (length (auto_survivors d u txs), m)))
   \<and> processTransactionsForCategorization no_rejects 5 [tx_income, tx_transfer] 1 db_t1_categorized
       = (\<lparr>transaction_categorizations =
             [\<lparr>c_user_id = 1, c_transaction_id = ''t1'', c_category = ''Salary'',
               c_plaid_data = Some ''{old}'', c_created_at = 3\<rparr>,
              \<lparr>c_user_id = 1, c_transaction_id = ''t2'', c_category = ''Transfer In'',
               c_plaid_data = Some ''{t2}'', c_created_at = 5\<rparr>],
           manual_review_transactions = []\<rparr>,
          Inr (1, 0))"
proof -
  let ?d' = "fst (processTransactionsForCategorization r n txs u d)"
  have noop: "(u, t) \<in> cat_keys d \<and> \<not> r (InsertCategorization u (Some t) cat data)
      \<longrightarrow> exec r n (InsertCategorization u (Some t) cat data) d = Inr d"
    by simp
  from ingestion_effect [of r n txs u d] obtain ys where
    e: "transaction_categorizations ?d' = transaction_categorizations d @ ys"
       "\<forall>row\<in>set ys. cat_key row \<notin> cat_keys d \<and> cat_key row \<notin> review_keys d
           \<and> c_created_at row = n
           \<and> (\<exists>tx\<in>set (auto_survivors d u txs).
                 c_user_id row = u \<and> transaction_id tx = Some (c_transaction_id row)
                 \<and> classify tx = Auto (c_category row) \<and> c_plaid_data row = Some (raw_json tx))"
    by blast
  have grows: "\<exists>ys. transaction_categorizations ?d' = transaction_categorizations d @ ys"
    using e(1) by blast
  have kept: "\<forall>k\<in>cat_keys d.
         filter (\<lambda>row. cat_key row = k) (transaction_categorizations ?d')
         = filter (\<lambda>row. cat_key row = k) (transaction_categorizations d)"
  proof
    fix k
    assume "k \<in> cat_keys d"
    with e(2) have "filter (\<lambda>row. cat_key row = k) ys = []"
      by (auto simp: filter_empty_conv)
    then show "filter (\<lambda>row. cat_key row = k) (transaction_categorizations ?d')
         = filter (\<lambda>row. cat_key row = k) (transaction_categorizations d)"
      by (simp add: e(1))
  qed
  have new: "(\<exists>row\<in>set (transaction_categorizations ?d').
                cat_key row = (u, t') \<and> row \<notin> set (transaction_categorizations d)
                \<and> c_created_at row = n
                \<and> (\<exists>tx'\<in>set txs. transaction_id tx' = Some t'
                      \<and> classify tx' = Auto (c_category row)
                      \<and> c_plaid_data row = Some (raw_json tx')))
             \<and> tx \<in> set (auto_survivors d u txs)
             \<and> (\<forall>a m. snd (processTransactionsForCategorization r n txs u d) = Inr (a, m)
                   \<longrightarrow> 1 \<le> a)"
    if tx: "tx \<in> set txs" and id: "transaction_id tx = Some t'"
      and fresh: "(u, t') \<notin> cat_keys d" "(u, t') \<notin> review_keys d"
      and auto: "is_auto tx" and acc: "\<not> r (write_for u tx)"
    for tx t'
  proof -
    have "tx \<in> set (dedup_filter d u txs)"
      using tx id fresh by (intro survivor_intro) auto
    with auto have surv: "tx \<in> set (auto_survivors d u txs)"
      by (simp add: auto_survivors_def)
    from write_for_auto [OF auto, of u] id acc have nf: "\<not> stmt_fails r (write_for u tx)"
      by (auto simp: stmt_fails_def)
    from auto_write_persisted [OF surv nf, of n] id
    have "(u, t') \<in> cat_keys ?d'" by auto
    then obtain row where row: "row \<in> set (transaction_categorizations ?d')" "cat_key row = (u, t')"
      by auto
    with fresh(1) have notold: "row \<notin> set (transaction_categorizations d)"
      by force
    with row(1) e(1) have "row \<in> set ys" by simp
    with e(2) obtain tx' where
      tx': "c_created_at row = n" "tx' \<in> set (auto_survivors d u txs)"
           "transaction_id tx' = Some (c_transaction_id row)"
           "classify tx' = Auto (c_category row)" "c_plaid_data row = Some (raw_json tx')"
      by blast
    from tx'(2) have "tx' \<in> set txs"
      by (auto simp: auto_survivors_def intro: survivor_in_batch)
    moreover from row(2) tx'(3) have "transaction_id tx' = Some t'"
      by (simp add: cat_key_def)
    ultimately have r1: "\<exists>row\<in>set (transaction_categorizations ?d').
                cat_key row = (u, t') \<and> row \<notin> set (transaction_categorizations d)
                \<and> c_created_at row = n
                \<and> (\<exists>tx'\<in>set txs. transaction_id tx' = Some t'
                      \<and> classify tx' = Auto (c_category row)
                      \<and> c_plaid_data row = Some (raw_json tx'))"
      using row notold tx'(1,4,5) by blast
    from surv have "1 \<le> length (auto_survivors d u txs)"
      by (cases "auto_survivors d u txs") auto
    then have r2: "\<forall>a m. snd (processTransactionsForCategorization r n txs u d) = Inr (a, m)
                   \<longrightarrow> 1 \<le> a"
      using process_snd_Inr [of r n txs u d] by auto
    from r1 surv r2 show ?thesis by blast
  qed
  have count: "\<forall>a m. snd (processTransactionsForCategorization r n txs u d) = Inr (a, m)
         \<longrightarrow> a = length (auto_survivors d u txs)"
    using process_snd_Inr [of r n txs u d] by blast
  have which: "auto_survivors d u txs
       = filter (\<lambda>tx. is_auto tx
                    \<and> (case transaction_id tx of
                          None \<Rightarrow> True
                        | Some t' \<Rightarrow> (u, t') \<notin> cat_keys d \<and> (u, t') \<notin> review_keys d)) txs"
    by (rule auto_survivors_filter)
  have returns: "(\<forall>tx\<in>set (dedup_filter d u txs). \<not> stmt_fails r (write_for u tx))
         \<longrightarrow> (\<exists>m. snd (processTransactionsForCategorization r n txs u d)
                     = Inr (length (auto_survivors d u txs), m))"
    using process_snd_ok [of d u txs r n] by blast
  have example: "processTransactionsForCategorization no_rejects 5 [tx_income, tx_transfer] 1
                   db_t1_categorized
       = (\<lparr>transaction_categorizations =
             [\<lparr>c_user_id = 1, c_transaction_id = ''t1'', c_category = ''Salary'',
               c_plaid_data = Some ''{old}'', c_created_at = 3\<rparr>,
              \<lparr>c_user_id = 1, c_transaction_id = ''t2'', c_category = ''Transfer In'',
               c_plaid_data = Some ''{t2}'', c_created_at = 5\<rparr>],
           manual_review_transactions = []\<rparr>,
          Inr (1, 0))"
    by (simp add: engine_defs example_defs string_defs)
  from noop grows kept new count which returns example show ?thesis
    by blast
qed

theorem auto_upsert_first_write_wins_witness:
  "exec no_rejects 5 (InsertCategorization 1 (Some ''t1'') ''Income'' (Some ''{t1}''))
     db_t1_categorized = Inr db_t1_categorized
   \<and> filter (\<lambda>row. cat_key row = (1, ''t1''))
       (transaction_categorizations
          (fst (processTransactionsForCategorization no_rejects 5 [tx_income, tx_transfer] 1
                  db_t1_categorized)))
     = transaction_categorizations db_t1_categorized
   \<and> (\<exists>row\<in>set (transaction_categorizations
                   (fst (processTransactionsForCategorization no_rejects 5
                           [tx_income, tx_transfer] 1 db_t1_categorized))).
         cat_key row = (1, ''t2'') \<and> c_created_at row = 5)
   \<and> tx_transfer \<in> set (auto_survivors db_t1_categorized 1 [tx_income, tx_transfer])
   \<and> snd (processTransactionsForCategorization no_rejects 5 [tx_income, tx_transfer] 1
            db_t1_categorized) = Inr (1, 0)
   \<and> length (auto_survivors db_t1_categorized 1 [tx_income, tx_transfer]) = 1
   \<and> (\<exists>m. snd (processTransactionsForCategorization no_rejects 5
                   [tx_income, tx_transfer, tx_income] 1 empty_db) = Inr (3, m))"
proof -
  note inst = auto_upsert_first_write_wins [of 1 "''t1''" db_t1_categorized no_rejects
      "''Income''" "Some ''{t1}''" 5 "[tx_income, tx_transfer]"]
  have k: "(1, ''t1'') \<in> cat_keys db_t1_categorized"
    and nr: "\<not> no_rejects (InsertCategorization 1 (Some ''t1'') ''Income'' (Some ''{t1}''))"
    by (simp_all add: example_defs cat_key_def)
  from inst k nr have 1:
    "exec no_rejects 5 (InsertCategorization 1 (Some ''t1'') ''Income'' (Some ''{t1}''))
       db_t1_categorized = Inr db_t1_categorized"
    by blast
  have old: "filter (\<lambda>row. cat_key row = (1, ''t1'')) (transaction_categorizations db_t1_categorized)
             = transaction_categorizations db_t1_categorized"
    by (simp add: cat_key_def example_defs)
  from inst k have 2:
    "filter (\<lambda>row. cat_key row = (1, ''t1''))
       (transaction_categorizations
          (fst (processTransactionsForCategorization no_rejects 5 [tx_income, tx_transfer] 1
                  db_t1_categorized)))
     = filter (\<lambda>row. cat_key row = (1, ''t1'')) (transaction_categorizations db_t1_categorized)"
    by blast
  have h: "tx_transfer \<in> set [tx_income, tx_transfer]"
    "transaction_id tx_transfer = Some ''t2''"
    "(1, ''t2'') \<notin> cat_keys db_t1_categorized" "(1, ''t2'') \<notin> review_keys db_t1_categorized"
    "is_auto tx_transfer" "\<not> no_rejects (write_for 1 tx_transfer)"
    by (simp_all add: example_defs cat_key_def is_auto_def classify_def
        AUTO_CATEGORIZE_PLAID_CATEGORIES_def)
  from inst h have 3:
    "\<exists>row\<in>set (transaction_categorizations
                   (fst (processTransactionsForCategorization no_rejects 5
                           [tx_income, tx_transfer] 1 db_t1_categorized))).
         cat_key row = (1, ''t2'') \<and> c_created_at row = 5"
    by blast
  from inst h have 4: "tx_transfer \<in> set (auto_survivors db_t1_categorized 1 [tx_income, tx_transfer])"
    by blast
  from inst have 5: "snd (processTransactionsForCategorization no_rejects 5 [tx_income, tx_transfer] 1
            db_t1_categorized) = Inr (1, 0)"
    by simp
  from inst 5 have 6: "1 = length (auto_survivors db_t1_categorized 1 [tx_income, tx_transfer])"
    by blast
  note inst3 = auto_upsert_first_write_wins [of 1 "''t1''" empty_db no_rejects
      "''Income''" "Some ''{t1}''" 5 "[tx_income, tx_transfer, tx_income]"]
  have s3: "dedup_filter empty_db 1 [tx_income, tx_transfer, tx_income]
              = [tx_income, tx_transfer, tx_income]"
    by (simp add: dedup_filter_def example_defs)
  have a3: "auto_survivors empty_db 1 [tx_income, tx_transfer, tx_income]
              = [tx_income, tx_transfer, tx_income]"
    unfolding auto_survivors_def s3
    by (simp add: is_auto_def classify_def AUTO_CATEGORIZE_PLAID_CATEGORIES_def example_defs)
  have ok3: "\<forall>tx\<in>set (dedup_filter empty_db 1 [tx_income, tx_transfer, tx_income]).
               \<not> stmt_fails no_rejects (write_for 1 tx)"
    unfolding s3 by (simp add: engine_defs example_defs string_defs)
  from inst3 ok3 obtain m where
    r3: "snd (processTransactionsForCategorization no_rejects 5 [tx_income, tx_transfer, tx_income] 1
            empty_db)
         = Inr (length (auto_survivors empty_db 1 [tx_income, tx_transfer, tx_income]), m)"
    by blast
  from r3 have 7: "\<exists>m. snd (processTransactionsForCategorization no_rejects 5
                   [tx_income, tx_transfer, tx_income] 1 empty_db) = Inr (3, m)"
    unfolding a3 by simp
  from 1 2 3 4 5 6 7 old show ?thesis by simp
qed

section \<open>Properties of explicit categorization\<close>

text \<open>
  C6. The explicit categorization operation succeeds when its upsert is accepted (the request
  carries a \<open>transaction_id\<close> and a category) and its delete is not refused. When it has
  succeeded for \<open>(userId, transactionId, category, rawData)\<close>: a categorization exists under
  the key; every row under the key carries the given category and raw data and the timestamp of
  the call (an existing row is overwritten in place, without it one row is added at the end);
  the rows of other keys are the rows that were there; the manual-review table is the old one
  without the entries of the key. A later ingestion call that delivers the transaction again
  skips it: the call has the outcome it has on the batch without it, and leaves the
  categorization rows of the key as they are and no manual-review entry under the key.
\<close>

theorem explicit_categorization:
  "(\<not> stmt_fails r (UpsertCategorization u (req_transaction_id req) (req_category req)
                      (req_plaid_data req))
      \<and> \<not> r (DeleteManualReview u (req_transaction_id req))
      \<longrightarrow> snd (categorize r n u req d) = Inr ())
   \<and> (categorize r n u req d = (d', Inr ()) \<longrightarrow>
        (\<exists>t c. req_transaction_id req = Some t \<and> req_category req = Some c
           \<and> (u, t) \<in> cat_keys d'
           \<and> (\<forall>row\<in>set (transaction_categorizations d'). cat_key row = (u, t) \<longrightarrow>
                 c_category row = c \<and> c_plaid_data row = req_plaid_data req
                 \<and> c_created_at row = n)
           \<and> ((u, t) \<in> cat_keys d \<longrightarrow>
                 transaction_categorizations d'
                   = map (overwrite c (req_plaid_data req) n (u, t)) (transaction_categorizations d))
           \<and> ((u, t) \<notin> cat_keys d \<longrightarrow>
                 transaction_categorizations d' = transaction_categorizations d @
                   [\<lparr>c_user_id = u, c_transaction_id = t, c_category = c,
                     c_plaid_data = req_plaid_data req, c_created_at = n\<rparr>])
           \<and> filter (\<lambda>row. cat_key row \<noteq> (u, t)) (transaction_categorizations d')
               = filter (\<lambda>row. cat_key row \<noteq> (u, t)) (transaction_categorizations d)
           \<and> manual_review_transactions d'
               = filter (\<lambda>row. review_key row \<noteq> (u, t)) (manual_review_transactions d)
           \<and> (u, t) \<notin> review_keys d'
           \<and> (\<forall>r' n' txs.
                 processTransactionsForCategorization r' n' txs u d'
                   = processTransactionsForCategorization r' n'
                       (filter (\<lambda>tx. transaction_id tx \<noteq> Some t) txs) u d'
                 \<and> filter (\<lambda>row. cat_key row = (u, t))
                      (transaction_categorizations
                         (fst (processTransactionsForCategorization r' n' txs u d')))
                    = filter (\<lambda>row. cat_key row = (u, t)) (transaction_categorizations d')
                 \<and> (u, t) \<notin> review_keys
                               (fst (processTransactionsForCategorization r' n' txs u d')))))"
proof (intro conjI impI)
  assume "\<not> stmt_fails r (UpsertCategorization u (req_transaction_id req) (req_category req)
                      (req_plaid_data req))
      \<and> \<not> r (DeleteManualReview u (req_transaction_id req))"
  then show "snd (categorize r n u req d) = Inr ()"
    using categorize_attainable by blast
next
  assume ok: "categorize r n u req d = (d', Inr ())"
  then obtain d1 t where
    up: "exec r n (UpsertCategorization u (req_transaction_id req) (req_category req)
           (req_plaid_data req)) d = Inr d1"
    and t: "req_transaction_id req = Some t"
    and del: "exec r n (DeleteManualReview u (Some t)) d1 = Inr d'"
    by (rule categorize_success)
  from upsert_Inr_ids [OF up] t obtain c where
    c: "req_category req = Some c"
    and nr: "\<not> r (UpsertCategorization u (Some t) (Some c) (req_plaid_data req))"
    by auto
  from upsert_effect [OF up] t c have
    u1: "manual_review_transactions d1 = manual_review_transactions d"
        "(u, t) \<in> cat_keys d1"
        "\<forall>row\<in>set (transaction_categorizations d1). cat_key row = (u, t) \<longrightarrow>
                 c_category row = c \<and> c_plaid_data row = req_plaid_data req \<and> c_created_at row = n"
        "filter (\<lambda>row. cat_key row \<noteq> (u, t)) (transaction_categorizations d1)
               = filter (\<lambda>row. cat_key row \<noteq> (u, t)) (transaction_categorizations d)"
        "(u, t) \<notin> cat_keys d \<longrightarrow>
                 transaction_categorizations d1 = transaction_categorizations d @
                   [\<lparr>c_user_id = u, c_transaction_id = t, c_category = c,
                     c_plaid_data = req_plaid_data req, c_created_at = n\<rparr>]"
    by auto
  have u2: "(u, t) \<in> cat_keys d \<longrightarrow>
              transaction_categorizations d1
                = map (overwrite c (req_plaid_data req) n (u, t)) (transaction_categorizations d)"
  proof
    assume present: "(u, t) \<in> cat_keys d"
    from up have "Inr d1 = exec r n (UpsertCategorization u (Some t) (Some c) (req_plaid_data req)) d"
      by (simp add: t c)
    also have "\<dots> = Inr (d\<lparr>transaction_categorizations :=
                  map (overwrite c (req_plaid_data req) n (u, t)) (transaction_categorizations d)\<rparr>)"
      using nr present by (rule exec_upsert_present)
    finally show "transaction_categorizations d1
                = map (overwrite c (req_plaid_data req) n (u, t)) (transaction_categorizations d)"
      by simp
  qed
  from delete_effect [OF del] have
    dl: "transaction_categorizations d' = transaction_categorizations d1"
        "manual_review_transactions d'
           = filter (\<lambda>row. review_key row \<noteq> (u, t)) (manual_review_transactions d1)"
    by simp_all
  have nokey: "(u, t) \<notin> review_keys d'"
    unfolding dl(2) by auto
  have key: "(u, t) \<in> cat_keys d'"
    using u1(2) by (simp add: dl(1))
  have later: "processTransactionsForCategorization r' n' txs u d'
                   = processTransactionsForCategorization r' n'
                       (filter (\<lambda>tx. transaction_id tx \<noteq> Some t) txs) u d'
                 \<and> filter (\<lambda>row. cat_key row = (u, t))
                      (transaction_categorizations
                         (fst (processTransactionsForCategorization r' n' txs u d')))
                    = filter (\<lambda>row. cat_key row = (u, t)) (transaction_categorizations d')
                 \<and> (u, t) \<notin> review_keys
                               (fst (processTransactionsForCategorization r' n' txs u d'))"
    for r' n' txs
  proof -
    let ?d'' = "fst (processTransactionsForCategorization r' n' txs u d')"
    have same: "processTransactionsForCategorization r' n' txs u d'
                   = processTransactionsForCategorization r' n'
                       (filter (\<lambda>tx. transaction_id tx \<noteq> Some t) txs) u d'"
      using process_drops_categorized [of u t d' r' n' txs] key by simp
    from ingestion_effect [of r' n' txs u d'] obtain ys zs where
      e: "transaction_categorizations ?d'' = transaction_categorizations d' @ ys"
         "manual_review_transactions ?d'' = manual_review_transactions d' @ zs"
         "\<forall>row\<in>set ys. cat_key row \<notin> cat_keys d' \<and> cat_key row \<notin> review_keys d'"
         "\<forall>row\<in>set zs. review_key row \<notin> cat_keys d' \<and> review_key row \<notin> review_keys d'"
      by blast
    from key e(3) have "filter (\<lambda>row. cat_key row = (u, t)) ys = []"
      by (auto simp: filter_empty_conv)
    then have rows: "filter (\<lambda>row. cat_key row = (u, t)) (transaction_categorizations ?d'')
                    = filter (\<lambda>row. cat_key row = (u, t)) (transaction_categorizations d')"
      by (simp add: e(1))
    from key e(4) have "(u, t) \<notin> set (map review_key zs)"
      by auto
    with nokey have "(u, t) \<notin> review_keys ?d''"
      by (simp add: e(2))
    with same rows show ?thesis by blast
  qed
  from t c key u1(3-5) u2 dl u1(1) nokey later
  show "\<exists>t c. req_transaction_id req = Some t \<and> req_category req = Some c
           \<and> (u, t) \<in> cat_keys d'
           \<and> (\<forall>row\<in>set (transaction_categorizations d'). cat_key row = (u, t) \<longrightarrow>
                 c_category row = c \<and> c_plaid_data row = req_plaid_data req
                 \<and> c_created_at row = n)
           \<and> ((u, t) \<in> cat_keys d \<longrightarrow>
                 transaction_categorizations d'
                   = map (overwrite c (req_plaid_data req) n (u, t)) (transaction_categorizations d))
           \<and> ((u, t) \<notin> cat_keys d \<longrightarrow>
                 transaction_categorizations d' = transaction_categorizations d @
                   [\<lparr>c_user_id = u, c_transaction_id = t, c_category = c,
                     c_plaid_data = req_plaid_data req, c_created_at = n\<rparr>])
           \<and> filter (\<lambda>row. cat_key row \<noteq> (u, t)) (transaction_categorizations d')
               = filter (\<lambda>row. cat_key row \<noteq> (u, t)) (transaction_categorizations d)
           \<and> manual_review_transactions d'
               = filter (\<lambda>row. review_key row \<noteq> (u, t)) (manual_review_transactions d)
           \<and> (u, t) \<notin> review_keys d'
           \<and> (\<forall>r' n' txs.
                 processTransactionsForCategorization r' n' txs u d'
                   = processTransactionsForCategorization r' n'
                       (filter (\<lambda>tx. transaction_id tx \<noteq> Some t) txs) u d'
                 \<and> filter (\<lambda>row. cat_key row = (u, t))
                      (transaction_categorizations
                         (fst (processTransactionsForCategorization r' n' txs u d')))
                    = filter (\<lambda>row. cat_key row = (u, t)) (transaction_categorizations d')
                 \<and> (u, t) \<notin> review_keys
                               (fst (processTransactionsForCategorization r' n' txs u d')))"
    by (intro exI [of _ t] exI [of _ c]) (simp only: simp_thms)
qed

theorem explicit_categorization_witness:
  "categorize no_rejects 9 1 req_t3 db_t3_pending = (db_t3_resolved, Inr ())
   \<and> (1, ''t3'') \<in> cat_keys db_t3_resolved
   \<and> (1, ''t3'') \<notin> review_keys db_t3_resolved
   \<and> processTransactionsForCategorization no_rejects 10 [tx_food] 1 db_t3_resolved
       = (db_t3_resolved, Inr (0, 0))
   \<and> snd (categorize no_rejects 9 1 req_t1 db_t1_categorized) = Inr ()"
proof -
  have acc: "\<not> stmt_fails no_rejects
                 (UpsertCategorization 1 (req_transaction_id req_t1) (req_category req_t1)
                    (req_plaid_data req_t1))
             \<and> \<not> no_rejects (DeleteManualReview 1 (req_transaction_id req_t1))"
    by (simp add: stmt_fails_def no_rejects_def req_t1_def)
  from explicit_categorization [of no_rejects 1 req_t1 9 db_t1_categorized] acc
  have overwrite_ok: "snd (categorize no_rejects 9 1 req_t1 db_t1_categorized) = Inr ()"
    by blast
  have run: "categorize no_rejects 9 1 req_t3 db_t3_pending = (db_t3_resolved, Inr ())"
    by (simp add: categorize_def example_defs cat_key_def review_key_def)
  have tid: "req_transaction_id req_t3 = Some ''t3''"
    by (simp add: req_t3_def)
  from explicit_categorization [of no_rejects 1 req_t3 9 db_t3_pending db_t3_resolved] run
  obtain t where t: "req_transaction_id req_t3 = Some t"
    and key': "(1, t) \<in> cat_keys db_t3_resolved"
    and nokey': "(1, t) \<notin> review_keys db_t3_resolved"
    and later': "\<forall>r' n' txs. processTransactionsForCategorization r' n' txs 1 db_t3_resolved
           = processTransactionsForCategorization r' n'
               (filter (\<lambda>tx. transaction_id tx \<noteq> Some t) txs) 1 db_t3_resolved"
    by blast
  from t tid have tt: "t = ''t3''" by simp
  from key' nokey' later' have key: "(1, ''t3'') \<in> cat_keys db_t3_resolved"
    and nokey: "(1, ''t3'') \<notin> review_keys db_t3_resolved"
    and later: "processTransactionsForCategorization no_rejects 10 [tx_food] 1 db_t3_resolved
           = processTransactionsForCategorization no_rejects 10
               (filter (\<lambda>tx. transaction_id tx \<noteq> Some ''t3'') [tx_food]) 1 db_t3_resolved"
    unfolding tt by blast+
  have "filter (\<lambda>tx. transaction_id tx \<noteq> Some ''t3'') [tx_food] = []"
    by (simp add: tx_food_def)
  with later have "processTransactionsForCategorization no_rejects 10 [tx_food] 1 db_t3_resolved
       = (db_t3_resolved, Inr (0, 0))"
    by (simp add: processTransactionsForCategorization_def)
  with run key nokey overwrite_ok show ?thesis by blast
qed

section \<open>Failing writes and records without id\<close>

text \<open>
  C7, as stated, does not hold. The persistence layer refuses the categorization insert of
  \<open>t1\<close> and would accept the manual-review insert of \<open>t3\<close>; the ingestion call on the
  batch of both ends with the refusal thrown to its caller, returns no counts, and \<open>t3\<close> is
  not persisted: both tables are as empty as before.
\<close>

theorem write_failure_counterexample:
  "stmt_fails rejects_t1 (write_for 1 tx_income)
   \<and> \<not> stmt_fails rejects_t1 (write_for 1 tx_food)
   \<and> processTransactionsForCategorization rejects_t1 5 [tx_income, tx_food] 1 empty_db
       = (empty_db, Inl QueryRejected)"
  by (simp add: engine_defs example_defs string_defs)

text \<open>
  C7, amended. A refused write is not caught inside the ingestion step: whenever the write of
  a surviving transaction is refused, the call ends with an error and returns no counts. The
  categorization inserts are all dispatched before the first await, so every auto-decided
  survivor whose write is accepted has a categorization afterwards, whatever else fails. When
  a categorization insert is refused, no manual-review insert is issued and the manual-review
  table stays as it was. When all categorization inserts are accepted, every manual-decided
  survivor whose write is accepted has a manual-review entry afterwards, also if another
  manual-review insert is refused.
\<close>

theorem write_failure_aborts_call:
  "(\<forall>tx\<in>set (dedup_filter d u txs). stmt_fails r (write_for u tx)
       \<longrightarrow> (\<exists>e. snd (processTransactionsForCategorization r n txs u d) = Inl e))
   \<and> (\<forall>tx\<in>set (auto_survivors d u txs). \<not> stmt_fails r (write_for u tx)
       \<longrightarrow> (\<exists>t. transaction_id tx = Some t
               \<and> (u, t) \<in> cat_keys (fst (processTransactionsForCategorization r n txs u d))))
   \<and> ((\<exists>tx\<in>set (auto_survivors d u txs). stmt_fails r (write_for u tx))
       \<longrightarrow> manual_review_transactions (fst (processTransactionsForCategorization r n txs u d))
             = manual_review_transactions d)
   \<and> ((\<forall>tx\<in>set (auto_survivors d u txs). \<not> stmt_fails r (write_for u tx))
       \<longrightarrow> (\<forall>tx\<in>set (manual_survivors d u txs). \<not> stmt_fails r (write_for u tx)
              \<longrightarrow> (\<exists>t. transaction_id tx = Some t
                      \<and> (u, t) \<in> review_keys
                                    (fst (processTransactionsForCategorization r n txs u d)))))"
proof -
  have aborts: "\<forall>tx\<in>set (dedup_filter d u txs). stmt_fails r (write_for u tx)
       \<longrightarrow> (\<exists>e. snd (processTransactionsForCategorization r n txs u d) = Inl e)"
    using process_snd_fail by blast
  have autos: "\<forall>tx\<in>set (auto_survivors d u txs). \<not> stmt_fails r (write_for u tx)
       \<longrightarrow> (\<exists>t. transaction_id tx = Some t
               \<and> (u, t) \<in> cat_keys (fst (processTransactionsForCategorization r n txs u d)))"
    using auto_write_persisted by blast
  have no_manual: "(\<exists>tx\<in>set (auto_survivors d u txs). stmt_fails r (write_for u tx))
       \<longrightarrow> manual_review_transactions (fst (processTransactionsForCategorization r n txs u d))
             = manual_review_transactions d"
  proof
    assume "\<exists>tx\<in>set (auto_survivors d u txs). stmt_fails r (write_for u tx)"
    then have "\<not> (\<forall>tx\<in>set (auto_survivors d u txs). \<not> stmt_fails r (write_for u tx))"
      by blast
    then have "fst (processTransactionsForCategorization r n txs u d) = after_auto r n txs u d"
      unfolding process_fst by (simp only: if_False)
    then show "manual_review_transactions (fst (processTransactionsForCategorization r n txs u d))
             = manual_review_transactions d"
      by (simp add: after_auto_reviews)
  qed
  have manuals: "(\<forall>tx\<in>set (auto_survivors d u txs). \<not> stmt_fails r (write_for u tx))
       \<longrightarrow> (\<forall>tx\<in>set (manual_survivors d u txs). \<not> stmt_fails r (write_for u tx)
              \<longrightarrow> (\<exists>t. transaction_id tx = Some t
                      \<and> (u, t) \<in> review_keys
                                    (fst (processTransactionsForCategorization r n txs u d))))"
    using manual_write_persisted by blast
  from aborts autos no_manual manuals show ?thesis
    by blast
qed

theorem write_failure_aborts_call_witness:
  "(\<exists>e. snd (processTransactionsForCategorization rejects_t1 5 [tx_income, tx_transfer, tx_food] 1
             empty_db) = Inl e)
   \<and> (1, ''t2'') \<in> cat_keys (fst (processTransactionsForCategorization rejects_t1 5
                                    [tx_income, tx_transfer, tx_food] 1 empty_db))
   \<and> manual_review_transactions
       (fst (processTransactionsForCategorization rejects_t1 5 [tx_income, tx_transfer, tx_food] 1
               empty_db)) = []
   \<and> (1, ''t3'') \<in> review_keys (fst (processTransactionsForCategorization no_rejects 5
                                       [tx_income, tx_food] 1 empty_db))"
proof -
  note inst = write_failure_aborts_call [of empty_db 1 "[tx_income, tx_transfer, tx_food]"
      rejects_t1 5]
  have s: "dedup_filter empty_db 1 [tx_income, tx_transfer, tx_food]
             = [tx_income, tx_transfer, tx_food]"
    by (simp add: dedup_filter_def example_defs)
  have a: "auto_survivors empty_db 1 [tx_income, tx_transfer, tx_food] = [tx_income, tx_transfer]"
    unfolding auto_survivors_def s
    by (simp add: is_auto_def classify_def AUTO_CATEGORIZE_PLAID_CATEGORIES_def example_defs)
  have f1: "stmt_fails rejects_t1 (write_for 1 tx_income)"
    by (simp add: engine_defs example_defs string_defs)
  have f2: "\<not> stmt_fails rejects_t1 (write_for 1 tx_transfer)"
    by (simp add: engine_defs example_defs string_defs)
  have t2: "transaction_id tx_transfer = Some ''t2''"
    by (simp add: tx_transfer_def)
  from inst f1 have 1: "\<exists>e. snd (processTransactionsForCategorization rejects_t1 5
                               [tx_income, tx_transfer, tx_food] 1 empty_db) = Inl e"
    unfolding s by simp
  from inst f2 t2 have 2: "(1, ''t2'') \<in> cat_keys (fst (processTransactionsForCategorization
                             rejects_t1 5 [tx_income, tx_transfer, tx_food] 1 empty_db))"
    unfolding a by simp
  from inst f1 have 3: "manual_review_transactions
       (fst (processTransactionsForCategorization rejects_t1 5 [tx_income, tx_transfer, tx_food] 1
               empty_db)) = manual_review_transactions empty_db"
    unfolding a by simp
  note inst2 = write_failure_aborts_call [of empty_db 1 "[tx_income, tx_food]" no_rejects 5]
  have s2: "dedup_filter empty_db 1 [tx_income, tx_food] = [tx_income, tx_food]"
    by (simp add: dedup_filter_def example_defs)
  have a2: "auto_survivors empty_db 1 [tx_income, tx_food] = [tx_income]"
    unfolding auto_survivors_def s2
    by (simp add: is_auto_def classify_def AUTO_CATEGORIZE_PLAID_CATEGORIES_def example_defs)
  have m2: "manual_survivors empty_db 1 [tx_income, tx_food] = [tx_food]"
    unfolding manual_survivors_def s2
    by (simp add: is_auto_def classify_def AUTO_CATEGORIZE_PLAID_CATEGORIES_def example_defs)
  have g1: "\<not> stmt_fails no_rejects (write_for 1 tx_income)"
    and g2: "\<not> stmt_fails no_rejects (write_for 1 tx_food)"
    by (simp_all add: engine_defs example_defs string_defs)
  have t3: "transaction_id tx_food = Some ''t3''"
    by (simp add: tx_food_def)
  from inst2 g1 g2 t3 have 4: "(1, ''t3'') \<in> review_keys (fst (processTransactionsForCategorization
                                 no_rejects 5 [tx_income, tx_food] 1 empty_db))"
    unfolding a2 m2 by simp
  from 1 2 3 4 show ?thesis
    by (simp add: empty_db_def)
qed

text \<open>
  C8, as stated, does not hold. A batch holds a rule-matching record without
  \<open>transaction_id\<close> and the record \<open>t3\<close>. The record without id is not skipped: its
  categorization insert is sent with a \<open>NULL\<close> id and refused, the call ends with that error,
  and \<open>t3\<close> is not persisted. The batch without the record persists \<open>t3\<close> and returns
  counts.
\<close>

theorem missing_id_counterexample:
  "transaction_id tx_no_id = None
   \<and> processTransactionsForCategorization no_rejects 3 [tx_no_id, tx_food] 1 empty_db
       = (empty_db, Inl NotNullViolation)
   \<and> processTransactionsForCategorization no_rejects 3 [tx_food] 1 empty_db
       = (db_t3_pending, Inr (0, 1))"
  by (simp add: engine_defs example_defs string_defs)

text \<open>
  C8, amended. A record without \<open>transaction_id\<close> is not skipped: a missing id is in neither
  id set, so the record passes the dedup filter, is classified, and lands in one of the two
  lists the counts are taken from. When it is rule-matching, its categorization insert carries
  a \<open>NULL\<close> id into a \<open>NOT NULL\<close> column: the call ends with an error, returns no counts, and
  issues no manual-review insert for any record of the batch.
\<close>

theorem missing_id_not_skipped:
  assumes "tx \<in> set txs" and "transaction_id tx = None"
  shows "tx \<in> set (dedup_filter d u txs)
         \<and> (write_for u tx
               \<in> set (fst (classify_loop (categorizedIds d u) (manualReviewIds d u) u txs ([], [])))
             \<or> tx \<in> set (snd (classify_loop (categorizedIds d u) (manualReviewIds d u) u txs
                                  ([], []))))
         \<and> (is_auto tx \<longrightarrow>
               (\<exists>e. snd (processTransactionsForCategorization r n txs u d) = Inl e)
               \<and> manual_review_transactions (fst (processTransactionsForCategorization r n txs u d))
                   = manual_review_transactions d)"
proof -
  have surv: "tx \<in> set (dedup_filter d u txs)"
    using assms by (intro survivor_intro) simp_all
  have loop: "classify_loop (categorizedIds d u) (manualReviewIds d u) u txs ([], [])
     = (map (write_for u) (auto_survivors d u txs), manual_survivors d u txs)"
    by (simp only: classify_loop_dedup auto_survivors_def manual_survivors_def)
  from surv have "tx \<in> set (auto_survivors d u txs) \<or> tx \<in> set (manual_survivors d u txs)"
    by (simp add: survivors_split)
  then have listed: "write_for u tx
               \<in> set (fst (classify_loop (categorizedIds d u) (manualReviewIds d u) u txs ([], [])))
             \<or> tx \<in> set (snd (classify_loop (categorizedIds d u) (manualReviewIds d u) u txs
                                  ([], [])))"
    unfolding loop by auto
  have auto_case: "(\<exists>e. snd (processTransactionsForCategorization r n txs u d) = Inl e)
               \<and> manual_review_transactions (fst (processTransactionsForCategorization r n txs u d))
                   = manual_review_transactions d"
    if auto: "is_auto tx"
  proof -
    from write_for_auto [OF auto, of u] assms(2) have fails: "stmt_fails r (write_for u tx)"
      by (auto simp: stmt_fails_def)
    from process_snd_fail [OF surv fails]
    have err: "\<exists>e. snd (processTransactionsForCategorization r n txs u d) = Inl e" .
    from surv auto have "tx \<in> set (auto_survivors d u txs)"
      by (simp add: auto_survivors_def)
    with fails have "\<not> (\<forall>tx\<in>set (auto_survivors d u txs). \<not> stmt_fails r (write_for u tx))"
      by blast
    then have "fst (processTransactionsForCategorization r n txs u d) = after_auto r n txs u d"
      unfolding process_fst by (simp only: if_False)
    then have "manual_review_transactions (fst (processTransactionsForCategorization r n txs u d))
                   = manual_review_transactions d"
      by (simp add: after_auto_reviews)
    with err show ?thesis by blast
  qed
  from surv listed auto_case show ?thesis
    by blast
qed

theorem missing_id_not_skipped_witness:
  "tx_no_id \<in> set (dedup_filter empty_db 1 [tx_no_id, tx_food])
   \<and> (\<exists>e. snd (processTransactionsForCategorization no_rejects 3 [tx_no_id, tx_food] 1 empty_db)
            = Inl e)
   \<and> manual_review_transactions
       (fst (processTransactionsForCategorization no_rejects 3 [tx_no_id, tx_food] 1 empty_db)) = []"
proof -
  have mem: "tx_no_id \<in> set [tx_no_id, tx_food]"
    and noid: "transaction_id tx_no_id = None"
    and auto: "is_auto tx_no_id"
    by (simp_all add: tx_no_id_def is_auto_def classify_def AUTO_CATEGORIZE_PLAID_CATEGORIES_def)
  from missing_id_not_skipped [OF mem noid, of empty_db 1 no_rejects 3] auto
  show ?thesis
    by (simp add: empty_db_def)
qed

section \<open>The steady-state invariant\<close>

text \<open>
  C9, as stated, does not hold. \<open>t3\<close> of user 1 waits for manual review and the invariant
  holds. The explicit categorization of \<open>t3\<close> sends its upsert, which is accepted, and then
  its delete, which the persistence layer refuses. The two statements are not in one
  transaction: the operation ends with the error, and \<open>t3\<close> has a Categorization and a
  ManualReviewEntry at once.
\<close>

theorem steady_state_counterexample:
  "steady_state db_t3_pending
   \<and> categorize rejects_delete_t3 9 1 req_t3 db_t3_pending = (db_t3_both, Inl QueryRejected)
   \<and> (1, ''t3'') \<in> cat_keys db_t3_both \<and> (1, ''t3'') \<in> review_keys db_t3_both
   \<and> \<not> steady_state db_t3_both"
  by (simp add: categorize_def example_defs cat_key_def review_key_def steady_state_def)

text \<open>
  C9, amended. The invariant (no key twice within a table, no key in both tables) is preserved
  by the ingestion step for every batch that meets the input contract, its
  \<open>transaction_id\<close>s pairwise different (more generally, no id delivered with both
  decisions), whether or not writes are refused. It is preserved by the explicit
  categorization operation whenever its delete is not refused, in particular whenever the
  operation succeeds; a refused upsert writes nothing. Only an accepted upsert followed by a
  refused delete can leave a Categorization beside the ManualReviewEntry of the key.
\<close>

theorem steady_state_preserved:
  assumes "steady_state d"
  shows "(distinct (map transaction_id txs)
            \<longrightarrow> steady_state (fst (processTransactionsForCategorization r n txs u d)))
         \<and> (one_decision_per_id txs
            \<longrightarrow> steady_state (fst (processTransactionsForCategorization r n txs u d)))
         \<and> (distinct (map transaction_id txs) \<longrightarrow> one_decision_per_id txs)
         \<and> (snd (categorize r' n' u' req d) = Inr ()
            \<longrightarrow> steady_state (fst (categorize r' n' u' req d)))
         \<and> (\<not> r' (DeleteManualReview u' (req_transaction_id req))
            \<longrightarrow> steady_state (fst (categorize r' n' u' req d)))
         \<and> (stmt_fails r' (UpsertCategorization u' (req_transaction_id req) (req_category req)
                             (req_plaid_data req))
            \<longrightarrow> fst (categorize r' n' u' req d) = d)"
proof -
  have ing: "one_decision_per_id txs
            \<longrightarrow> steady_state (fst (processTransactionsForCategorization r n txs u d))"
    using ingestion_steady_state [OF assms] by blast
  have dis: "distinct (map transaction_id txs) \<longrightarrow> one_decision_per_id txs"
    using distinct_ids_one_decision by blast
  from ing dis have contract: "distinct (map transaction_id txs)
            \<longrightarrow> steady_state (fst (processTransactionsForCategorization r n txs u d))"
    by blast
  have cat: "snd (categorize r' n' u' req d) = Inr ()
            \<longrightarrow> steady_state (fst (categorize r' n' u' req d))"
  proof
    assume "snd (categorize r' n' u' req d) = Inr ()"
    then have "categorize r' n' u' req d = (fst (categorize r' n' u' req d), Inr ())"
      by (metis prod.collapse)
    with assms show "steady_state (fst (categorize r' n' u' req d))"
      by (rule categorize_steady_state)
  qed
  have del: "\<not> r' (DeleteManualReview u' (req_transaction_id req))
            \<longrightarrow> steady_state (fst (categorize r' n' u' req d))"
    using categorize_delete_accepted_steady_state [OF assms] by blast
  have ups: "stmt_fails r' (UpsertCategorization u' (req_transaction_id req) (req_category req)
                             (req_plaid_data req))
            \<longrightarrow> fst (categorize r' n' u' req d) = d"
    using categorize_upsert_refused by blast
  from contract ing dis cat del ups show ?thesis by blast
qed

theorem steady_state_preserved_witness:
  "steady_state db_t3_pending
   \<and> steady_state (fst (processTransactionsForCategorization no_rejects 5
                          [tx_income, tx_transfer, tx_food] 1 db_t3_pending))
   \<and> steady_state (fst (processTransactionsForCategorization rejects_t1 5
                          [tx_income, tx_transfer, tx_food] 1 db_t3_pending))
   \<and> steady_state (fst (categorize no_rejects 9 1 req_t3 db_t3_pending))
   \<and> fst (categorize rejects_delete_t3 9 1 (req_t3\<lparr>req_category := None\<rparr>) db_t3_pending)
       = db_t3_pending"
proof -
  have inv: "steady_state db_t3_pending"
    by (simp add: steady_state_def db_t3_pending_def)
  have ids: "distinct (map transaction_id [tx_income, tx_transfer, tx_food])"
    by (simp add: example_defs)
  have ok: "snd (categorize no_rejects 9 1 req_t3 db_t3_pending) = Inr ()"
    by (simp add: categorize_def example_defs cat_key_def review_key_def)
  have acc: "\<not> no_rejects (DeleteManualReview 1 (req_transaction_id req_t3))"
    by (simp add: no_rejects_def)
  have bad: "stmt_fails rejects_delete_t3
               (UpsertCategorization 1 (req_transaction_id (req_t3\<lparr>req_category := None\<rparr>))
                  (req_category (req_t3\<lparr>req_category := None\<rparr>))
                  (req_plaid_data (req_t3\<lparr>req_category := None\<rparr>)))"
    by (simp add: stmt_fails_def)
  from steady_state_preserved [OF inv, of "[tx_income, tx_transfer, tx_food]" no_rejects 5 1
      no_rejects 9 1 req_t3] ids ok acc
  have 1: "steady_state (fst (processTransactionsForCategorization no_rejects 5
                          [tx_income, tx_transfer, tx_food] 1 db_t3_pending))"
    and 2: "steady_state (fst (categorize no_rejects 9 1 req_t3 db_t3_pending))"
    by blast+
  from steady_state_preserved [OF inv, of "[tx_income, tx_transfer, tx_food]" rejects_t1 5 1
      rejects_delete_t3 9 1 "req_t3\<lparr>req_category := None\<rparr>"] ids bad
  have 3: "steady_state (fst (processTransactionsForCategorization rejects_t1 5
                          [tx_income, tx_transfer, tx_food] 1 db_t3_pending))"
    and 4: "fst (categorize rejects_delete_t3 9 1 (req_t3\<lparr>req_category := None\<rparr>) db_t3_pending)
       = db_t3_pending"
    by blast+
  from inv 1 2 3 4 show ?thesis by blast
qed

end
